theory Spec2Isabelle
  imports Complex_Main "HOL-Library.Word"
begin

unbundle bit_operations_syntax

section \<open>Data model of \<open>image_u8.c\<close>\<close>

text \<open>
  Pixels are \<open>uint8_t\<close>.  An \<open>image_u8_t\<close> has three \<open>int32_t\<close> fields and a
  pointer to its backing array; the array is modelled as the list of its bytes.
  The index arithmetic, \<open>int\<close> in the source, is done in the integers; every array
  access of the model is checked against the array it goes to, and an access outside of
  it (undefined behaviour in C) is the error \<open>OutOfBounds\<close>.
\<close>

type_synonym uint8 = "8 word"

datatype error = OutOfBounds | AssertFailed | DivByZero | NegativeSize | Diverges

record image_u8 =
  width :: int
  height :: int
  stride :: int
  buf :: "uint8 list"

text \<open>
  The invariant of a Buffer: non-negative dimensions, \<open>stride \<ge> width\<close>, an array of
  \<open>stride * height\<close> bytes, and a size that the \<open>int\<close> index arithmetic of the source
  can address.  Under it every in-range index \<open>y * stride + x\<close> is below \<open>2 ^ 31\<close>, so
  the unbounded index arithmetic of the model agrees with the 32-bit one of the code.
\<close>

definition valid_image :: "image_u8 \<Rightarrow> bool" where
  "valid_image im \<longleftrightarrow>
     0 \<le> width im \<and> 0 \<le> height im \<and> width im \<le> stride im \<and>
     int (length (buf im)) = stride im * height im \<and> stride im * height im < 2 ^ 31"

definition rd :: "'a list \<Rightarrow> int \<Rightarrow> error + 'a" where
  "rd xs i = (if 0 \<le> i \<and> i < int (length xs) then Inr (xs ! nat i) else Inl OutOfBounds)"

definition wr :: "'a list \<Rightarrow> int \<Rightarrow> 'a \<Rightarrow> error + 'a list" where
  "wr xs i v = (if 0 \<le> i \<and> i < int (length xs) then Inr (xs[nat i := v]) else Inl OutOfBounds)"

definition bindE :: "error + 'a \<Rightarrow> ('a \<Rightarrow> error + 'b) \<Rightarrow> error + 'b" where
  "bindE m f = (case m of Inl e \<Rightarrow> Inl e | Inr a \<Rightarrow> f a)"

text \<open>\<open>for (int i = lo; i < hi; i++) body\<close>, the body threading the state \<open>s\<close>.\<close>

function for_loop :: "int \<Rightarrow> int \<Rightarrow> (int \<Rightarrow> 's \<Rightarrow> error + 's) \<Rightarrow> 's \<Rightarrow> error + 's" where
  "for_loop i hi body s =
     (if i < hi then bindE (body i s) (for_loop (i + 1) hi body) else Inr s)"
  by pat_completeness auto
termination
  by (relation "measure (\<lambda>(i, hi, body, s). nat (hi - i))") auto

declare for_loop.simps [simp del]

subsection \<open>Allocation: \<open>image_u8_create_stride\<close>, \<open>image_u8_create_alignment\<close>, \<open>image_u8_create\<close>\<close>

text \<open>
  The three arguments are \<open>unsigned int\<close>.  \<open>calloc\<close> gets \<open>height * stride\<close>, a product
  of two \<open>unsigned int\<close> that wraps at \<open>2 ^ 32\<close>, and is taken to succeed; the fields are
  the arguments cast to \<open>int32_t\<close>.  In \<open>image_u8_create_alignment\<close> the local \<open>stride\<close>
  is an \<open>int\<close> that only meets \<open>unsigned\<close> operands, so \<open>%\<close>, \<open>-\<close> and \<open>+=\<close> are those of
  32-bit words.  The remainder by an \<open>alignment\<close> of 0 is an error.
\<close>

definition image_u8_create_stride :: "32 word \<Rightarrow> 32 word \<Rightarrow> 32 word \<Rightarrow> image_u8" where
  "image_u8_create_stride w h s =
     \<lparr> width = sint w, height = sint h, stride = sint s, buf = replicate (unat (h * s)) 0 \<rparr>"

definition image_u8_create_alignment :: "32 word \<Rightarrow> 32 word \<Rightarrow> 32 word \<Rightarrow> error + image_u8" where
  "image_u8_create_alignment w h alignment =
     (if alignment = 0 then Inl DivByZero
      else let stride = w;
               stride = (if stride mod alignment \<noteq> 0
                         then stride + (alignment - stride mod alignment) else stride)
           in Inr (image_u8_create_stride w h stride))"

definition DEFAULT_ALIGNMENT_U8 :: "32 word" where
  "DEFAULT_ALIGNMENT_U8 = 96"

definition image_u8_create :: "32 word \<Rightarrow> 32 word \<Rightarrow> error + image_u8" where
  "image_u8_create w h = image_u8_create_alignment w h DEFAULT_ALIGNMENT_U8"

text \<open>The smallest multiple of \<open>a\<close> that is at least \<open>w\<close>, as a natural number.\<close>

definition round_up :: "nat \<Rightarrow> nat \<Rightarrow> nat" where
  "round_up w a = ((w + a - 1) div a) * a"

subsection \<open>\<open>image_u8_decimate\<close>\<close>

text \<open>Integer division of C truncates towards zero.\<close>

definition cdiv :: "int \<Rightarrow> int \<Rightarrow> int" where
  "cdiv a b = sgn a * sgn b * (\<bar>a\<bar> div \<bar>b\<bar>)"

text \<open>
  The sum \<open>im->buf[i\<^sub>1] + im->buf[i\<^sub>2] + ...\<close> of a fast path: each operand is read (and
  checked) in turn and promoted to \<open>int\<close>.  At most 12 bytes are summed, far from any
  overflow.
\<close>

fun sum_px :: "uint8 list \<Rightarrow> int list \<Rightarrow> error + int" where
  "sum_px b [] = Inr 0"
| "sum_px b (i # is) = bindE (rd b i) (\<lambda>p. bindE (sum_px b is) (\<lambda>s. Inr (uint p + s)))"

text \<open>
  \<open>for (int y = lo; y < hi; y += step) body\<close>.  With a step that is not positive the
  loop of the source never leaves; the model returns \<open>Diverges\<close> for it.
\<close>

function for_loop_by :: "int \<Rightarrow> int \<Rightarrow> int \<Rightarrow> (int \<Rightarrow> 's \<Rightarrow> error + 's) \<Rightarrow> 's \<Rightarrow> error + 's" where
  "for_loop_by step i hi body s =
     (if i < hi then
        (if step \<le> 0 then Inl Diverges
         else bindE (body i s) (for_loop_by step (i + step) hi body))
      else Inr s)"
  by pat_completeness auto
termination
  by (relation "measure (\<lambda>(step, i, hi, body, s). nat (hi - i))") auto

declare for_loop_by.simps [simp del]

text \<open>
  The scalar loops of the factors 2, 3 and 4 (the NEON variants are compiled on ARM only).
  The three copies in the source differ in the bytes summed (\<open>taps\<close>), the shift and the
  step of \<open>idx\<close>; \<open>idx\<close> and \<open>sidx\<close> are loop-carried, as in the source.
\<close>

definition decimate_block ::
  "image_u8 \<Rightarrow> image_u8 \<Rightarrow> int \<Rightarrow> (int \<Rightarrow> int list) \<Rightarrow> nat \<Rightarrow> int \<Rightarrow> int \<Rightarrow> error + uint8 list" where
  "decimate_block im decim factor taps shift swidth sheight =
     for_loop 0 sheight (\<lambda>sy db.
       bindE (for_loop 0 swidth (\<lambda>sx (idx, sidx, db).
                bindE (sum_px (buf im) (taps idx)) (\<lambda>v.
                bindE (wr db sidx (word_of_int (drop_bit shift v))) (\<lambda>db'.
                Inr (idx + factor, sidx + 1, db'))))
              ((sy * factor) * stride im, sy * stride decim, db))
         (\<lambda>(idx, sidx, db'). Inr db'))
       (buf decim)"

definition taps2 :: "int \<Rightarrow> int \<Rightarrow> int list" where
  "taps2 s idx = [idx, idx + 1, idx + s, idx + s + 1]"

definition taps3 :: "int \<Rightarrow> int \<Rightarrow> int list" where
  "taps3 s idx = [idx, idx + 1, idx + 2,
                  idx + s, idx + s + 1, idx + s + 2,
                  idx + 2 * s, idx + 2 * s + 1]"

definition taps4 :: "int \<Rightarrow> int \<Rightarrow> int list" where
  "taps4 s idx = [idx, idx + 1, idx + 2, idx + 3,
                  idx + s, idx + s + 1, idx + s + 1, idx + s + 2,
                  idx + 2 * s, idx + 2 * s + 1, idx + 2 * s + 2, idx + 2 * s + 3]"

text \<open>
  Modelled from the spec: \<open>sq\<close> of \<open>common/math_util.h\<close>, which is not among the sources,
  squares its argument; the generic path "divides by \<open>factor\<^sup>2\<close>", truncating.
\<close>

definition sq :: "int \<Rightarrow> int" where
  "sq v = v * v"

text \<open>
  The generic path.  \<open>row\<close> is the array \<open>uint32_t row[swidth]\<close>, cleared by \<open>memset\<close> at
  each \<open>y\<close>; its sums wrap at \<open>2 ^ 32\<close>.
\<close>

definition decimate_generic ::
  "image_u8 \<Rightarrow> image_u8 \<Rightarrow> int \<Rightarrow> int \<Rightarrow> error + uint8 list" where
  "decimate_generic im decim factor swidth =
     (if swidth < 0 then Inl NegativeSize
      else bindE
        (for_loop_by factor 0 (height im) (\<lambda>y (row, db).
           bindE (for_loop 0 factor (\<lambda>dy. for_loop 0 (width im) (\<lambda>x row.
                    bindE (rd (buf im) ((y + dy) * stride im + x)) (\<lambda>p.
                    bindE (rd row (cdiv x factor)) (\<lambda>r.
                    wr row (cdiv x factor) (r + ucast p)))))
                  (replicate (length row) 0)) (\<lambda>row.
           bindE (for_loop 0 swidth (\<lambda>x db.
                    bindE (rd row x) (\<lambda>r.
                    wr db (cdiv y factor * stride decim + x)
                       (word_of_int (uint r div sq factor)))) db) (\<lambda>db.
           Inr (row, db))))
         (replicate (nat swidth) (0 :: 32 word), buf decim))
        (\<lambda>(row, db). Inr db))"

text \<open>
  \<open>image_u8_decimate\<close> after \<open>int factor = (int) ffactor\<close>, for an integer factor (the
  branch of the factor 1.5 is not modelled).  A factor of 0 divides by zero.
\<close>

definition image_u8_decimate :: "image_u8 \<Rightarrow> int \<Rightarrow> error + image_u8" where
  "image_u8_decimate im factor =
     (if factor = 0 then Inl DivByZero
      else let swidth = cdiv (width im) factor; sheight = cdiv (height im) factor in
        bindE (image_u8_create (word_of_int swidth) (word_of_int sheight)) (\<lambda>decim.
        bindE (if factor = 2 then decimate_block im decim 2 (taps2 (stride im)) 2 swidth sheight
               else if factor = 3 then decimate_block im decim 3 (taps3 (stride im)) 3 swidth sheight
               else if factor = 4 then decimate_block im decim 4 (taps4 (stride im)) 4 swidth sheight
               else decimate_generic im decim factor swidth) (\<lambda>db.
        Inr (decim\<lparr>buf := db\<rparr>))))"

text \<open>The Buffer of the given dimensions and stride whose every byte is \<open>v\<close>.\<close>

definition uniform_image :: "int \<Rightarrow> int \<Rightarrow> int \<Rightarrow> uint8 \<Rightarrow> image_u8" where
  "uniform_image w h s v = \<lparr> width = w, height = h, stride = s, buf = replicate (nat (s * h)) v \<rparr>"

subsection \<open>\<open>convolve\<close>, the one-dimensional pass\<close>

text \<open>
  \<open>x\<close> is the source, \<open>y\<close> the destination as it is on entry, \<open>k\<close> the kernel.  The
  condition \<open>i < ksz/2 && i < sz\<close> of the first loop is the bound \<open>min (ksz/2) sz\<close>; the
  accumulator is a \<open>uint32_t\<close>, and \<open>acc >> 8\<close> is stored into a \<open>uint8_t\<close>, which keeps its
  low 8 bits.
\<close>

definition convolve :: "uint8 list \<Rightarrow> uint8 list \<Rightarrow> int \<Rightarrow> uint8 list \<Rightarrow> int \<Rightarrow> error + uint8 list" where
  "convolve x y sz k ksz =
     (if ksz AND 1 \<noteq> 1 then Inl AssertFailed
      else
        bindE (for_loop 0 (min (cdiv ksz 2) sz) (\<lambda>i y. bindE (rd x i) (\<lambda>v. wr y i v)) y) (\<lambda>y.
        bindE (for_loop 0 (sz - ksz) (\<lambda>i y.
                 bindE (for_loop 0 ksz (\<lambda>j acc.
                          bindE (rd k j) (\<lambda>kj.
                          bindE (rd x (i + j)) (\<lambda>xv.
                          Inr (acc + word_of_int (uint kj * uint xv))))) (0 :: 32 word)) (\<lambda>acc.
                 wr y (cdiv ksz 2 + i) (ucast (drop_bit 8 acc)))) y) (\<lambda>y.
        for_loop (sz - ksz + cdiv ksz 2) sz (\<lambda>i y. bindE (rd x i) (\<lambda>v. wr y i v)) y)))"

text \<open>
  The sum \<open>kernel[0] * source[i] + ... + kernel[n - 1] * source[i + n - 1]\<close> as an
  integer, and the byte the pass stores for it.
\<close>

definition weighted_sum :: "uint8 list \<Rightarrow> uint8 list \<Rightarrow> nat \<Rightarrow> nat \<Rightarrow> int" where
  "weighted_sum k x i n = (\<Sum>j = 0..<n. uint (k ! j) * uint (x ! (i + j)))"

definition filtered :: "uint8 list \<Rightarrow> uint8 list \<Rightarrow> nat \<Rightarrow> nat \<Rightarrow> uint8" where
  "filtered k x i n = word_of_int (weighted_sum k x i n mod 2 ^ 32 div 2 ^ 8)"

subsection \<open>\<open>image_u8_write_pnm\<close>\<close>



















subsection \<open>\<open>image_u8_draw_line\<close> and \<open>image_u8_draw_circle\<close>\<close>

text \<open>
  The walk \<open>for (float f = 0; f <= 1; f += delta)\<close> and the conversions
  \<open>(int) (x1 + (x0 - x1) * f)\<close> are floating-point computations.  The model takes
  their outcome as an argument: \<open>pts\<close> is the sequence of the points \<open>(x, y)\<close> of the walk,
  the first of which, at \<open>f = 0\<close>, is \<open>((int) x1, (int) y1)\<close>.  \<open>draw_line_plot\<close> is the body of
  the loop at one point; \<open>v\<close> is an \<open>int\<close> stored into a \<open>uint8_t\<close>.
\<close>

definition draw_line_plot :: "image_u8 \<Rightarrow> int \<Rightarrow> int \<Rightarrow> int \<Rightarrow> int \<Rightarrow> uint8 list \<Rightarrow> error + uint8 list" where
  "draw_line_plot im v lwidth x y b =
     (if x < 0 \<or> y < 0 \<or> x \<ge> width im \<or> y \<ge> height im then Inr b
      else let idx = y * stride im + x in
        bindE (wr b idx (word_of_int v)) (\<lambda>b.
        if lwidth > 1 then
          bindE (wr b (idx + 1) (word_of_int v)) (\<lambda>b.
          bindE (wr b (idx + stride im) (word_of_int v)) (\<lambda>b.
          wr b (idx + 1 + stride im) (word_of_int v)))
        else Inr b))"

fun draw_line_walk :: "image_u8 \<Rightarrow> int \<Rightarrow> int \<Rightarrow> (int \<times> int) list \<Rightarrow> uint8 list \<Rightarrow> error + uint8 list" where
  "draw_line_walk im v lwidth [] b = Inr b"
| "draw_line_walk im v lwidth ((x, y) # pts) b =
     bindE (draw_line_plot im v lwidth x y b) (draw_line_walk im v lwidth pts)"

definition image_u8_draw_line :: "image_u8 \<Rightarrow> (int \<times> int) list \<Rightarrow> int \<Rightarrow> int \<Rightarrow> error + image_u8" where
  "image_u8_draw_line im pts v lwidth =
     bindE (draw_line_walk im v lwidth pts (buf im)) (\<lambda>b. Inr (im\<lparr>buf := b\<rparr>))"

text \<open>
  In \<open>image_u8_draw_circle\<close> the bounds of the two loops and the test \<open>d > r\<close> are
  floating-point computations as well; the model takes the bounds \<open>ylo\<close>, \<open>yhi\<close>, \<open>xlo\<close>,
  \<open>xhi\<close> (the loops run while \<open>y <= yhi\<close> and \<open>x <= xhi\<close>) and the test \<open>far x y\<close> as
  arguments.
\<close>

definition image_u8_draw_circle ::
  "image_u8 \<Rightarrow> int \<Rightarrow> int \<Rightarrow> int \<Rightarrow> int \<Rightarrow> (int \<Rightarrow> int \<Rightarrow> bool) \<Rightarrow> int \<Rightarrow> error + image_u8" where
  "image_u8_draw_circle im ylo yhi xlo xhi far v =
     bindE (for_loop ylo (yhi + 1) (\<lambda>y. for_loop xlo (xhi + 1) (\<lambda>x b.
              if far x y then Inr b
              else if x \<ge> 0 \<and> x < width im \<and> y \<ge> 0 \<and> y < height im
                   then wr b (y * stride im + x) (word_of_int v)
                   else Inr b))
            (buf im))
       (\<lambda>b. Inr (im\<lparr>buf := b\<rparr>))"

subsection \<open>\<open>image_u8_fill_line_max\<close>\<close>

text \<open>
  The lookup table \<open>image_u8_lut_t\<close>: \<open>nvalues\<close> and the array \<open>values\<close> (here \<open>lvalues\<close>).
  Its \<open>scale\<close> is a \<open>float\<close> and enters floating-point computations only.
\<close>

record image_u8_lut =
  nvalues :: int
  lvalues :: "uint8 list"

text \<open>
  Modelled from the spec: \<open>iclamp\<close> of \<open>common/math_util.h\<close>, which is not among the sources,
  is the "integer clamp-to-range".
\<close>

definition iclamp :: "int \<Rightarrow> int \<Rightarrow> int \<Rightarrow> int" where
  "iclamp v minv maxv = max minv (min v maxv)"

text \<open>
  The geometry of \<open>image_u8_fill_line_max\<close> is floating-point: the four values handed to
  \<open>iclamp\<close> (converted to \<open>int\<close> at the call) and, for each pixel, the index
  \<open>idx = dist2 * lut->scale\<close>.  The model takes them as arguments, \<open>fx0\<close>, \<open>fx1\<close>, \<open>fy0\<close>,
  \<open>fy1\<close> and \<open>lut_idx ix iy\<close>; what it proves holds whatever they are.  \<open>fill_pixel\<close> is the
  body of the inner loop from \<open>int idx\<close> on.
\<close>

definition fill_pixel :: "image_u8 \<Rightarrow> image_u8_lut \<Rightarrow> (int \<Rightarrow> int \<Rightarrow> int) \<Rightarrow> int \<Rightarrow> int \<Rightarrow> uint8 list \<Rightarrow> error + uint8 list" where
  "fill_pixel im lut lut_idx iy ix b =
     (let idx = lut_idx ix iy in
      if idx \<ge> nvalues lut then Inr b
      else
        bindE (rd (lvalues lut) idx) (\<lambda>lut_value.
        bindE (rd b (iy * stride im + ix)) (\<lambda>old_value.
        if lut_value > old_value then wr b (iy * stride im + ix) lut_value else Inr b)))"

definition image_u8_fill_line_max ::
  "image_u8 \<Rightarrow> image_u8_lut \<Rightarrow> int \<Rightarrow> int \<Rightarrow> int \<Rightarrow> int \<Rightarrow> (int \<Rightarrow> int \<Rightarrow> int) \<Rightarrow> error + image_u8" where
  "image_u8_fill_line_max im lut fx0 fx1 fy0 fy1 lut_idx =
     (let ix0 = iclamp fx0 0 (width im - 1);
          ix1 = iclamp fx1 0 (width im - 1);
          iy0 = iclamp fy0 0 (height im - 1);
          iy1 = iclamp fy1 0 (height im - 1)
      in bindE (for_loop iy0 (iy1 + 1) (\<lambda>iy. for_loop ix0 (ix1 + 1) (fill_pixel im lut lut_idx iy))
                 (buf im))
           (\<lambda>b. Inr (im\<lparr>buf := b\<rparr>)))"




subsection \<open>\<open>image_u8_rotate\<close>\<close>

text \<open>
  The coordinates of \<open>image_u8_rotate\<close> are \<open>float\<close>, IEEE binary32.  \<open>binary32 x\<close> is the
  real \<open>x\<close> rounded to 24 significant bits, to nearest and ties to even; overflow and
  subnormal numbers are not modelled (at the angle 0 the magnitudes at work are \<open>0\<close> or
  between \<open>1/2\<close> and \<open>2\<^sup>3\<^sup>2\<close>).  An operation on \<open>float\<close> operands is the operation on the
  reals, rounded.
\<close>

definition round_half_even :: "real \<Rightarrow> int" where
  "round_half_even x =
     (let f = \<lfloor>x\<rfloor>; d = x - of_int f
      in if d < 1 / 2 then f else if d > 1 / 2 then f + 1 else if even f then f else f + 1)"

definition binary32 :: "real \<Rightarrow> real" where
  "binary32 x =
     (if x = 0 then 0
      else let e = \<lfloor>log 2 \<bar>x\<bar>\<rfloor>
           in of_int (round_half_even (x * 2 powi (23 - e))) * 2 powi (e - 23))"

text \<open>
  One turn of the loop over the four corners, and the size of the output.  \<open>c\<close> and \<open>s\<close>
  are the \<open>float\<close> variables of the source.  The initial \<open>0x7f800000\<close> is the integer
  \<open>2139095040 = 255 * 2\<^sup>2\<^sup>3\<close>, itself a \<open>float\<close>; \<open>iwidth / 2.0\<close> is a division in \<open>double\<close>,
  exact for an \<open>int\<close>, stored into a \<open>float\<close>.
\<close>

definition rotate_corner :: "real \<Rightarrow> real \<Rightarrow> real \<Rightarrow> real \<Rightarrow> real \<times> real \<Rightarrow>
    real \<times> real \<times> real \<times> real \<Rightarrow> real \<times> real \<times> real \<times> real" where
  "rotate_corner c s icx icy p acc =
     (case acc of (xmin, xmax, ymin, ymax) \<Rightarrow>
        let px = binary32 (fst p - icx);
            py = binary32 (snd p - icy);
            nx = binary32 (binary32 (px * c) - binary32 (py * s));
            ny = binary32 (binary32 (px * s) + binary32 (py * c))
        in (min xmin nx, max xmax nx, min ymin ny, max ymax ny))"

definition rotate_size :: "image_u8 \<Rightarrow> real \<Rightarrow> real \<Rightarrow> int \<times> int" where
  "rotate_size im c s =
     (let iwidth = width im; iheight = height im;
          p = [(0, 0), (binary32 (of_int iwidth), 0),
               (binary32 (of_int iwidth), binary32 (of_int iheight)), (0, binary32 (of_int iheight))];
          icx = binary32 (of_int iwidth / 2); icy = binary32 (of_int iheight / 2)
      in case fold (rotate_corner c s icx icy) p
                (2139095040, - 2139095040, 2139095040, - 2139095040) of
           (xmin, xmax, ymin, ymax) \<Rightarrow>
             (\<lceil>binary32 (xmax - xmin)\<rceil>, \<lceil>binary32 (ymax - ymin)\<rceil>))"

text \<open>
  The body of the loop over the output pixels.  \<open>ox - owidth / 2.0 + .5\<close> is computed in
  \<open>double\<close>, exactly, and stored into the \<open>float\<close> \<open>sx\<close>; the argument of \<open>floor\<close> is a
  \<open>float\<close> expression.
\<close>

definition rotate_pixel ::
  "image_u8 \<Rightarrow> image_u8 \<Rightarrow> real \<Rightarrow> real \<Rightarrow> uint8 \<Rightarrow> int \<Rightarrow> int \<Rightarrow> int \<Rightarrow> int \<Rightarrow> uint8 list \<Rightarrow> error + uint8 list" where
  "rotate_pixel im out c s pad owidth oheight oy ox b =
     (let icx = binary32 (of_int (width im) / 2); icy = binary32 (of_int (height im) / 2);
          sx = binary32 (of_int ox - of_int owidth / 2 + 1 / 2);
          sy = binary32 (of_int oy - of_int oheight / 2 + 1 / 2);
          ix = \<lfloor>binary32 (binary32 (binary32 (sx * c) + binary32 (sy * s)) + icx)\<rfloor>;
          iy = \<lfloor>binary32 (binary32 (binary32 (- sx * s) + binary32 (sy * c)) + icy)\<rfloor>
      in if ix \<ge> 0 \<and> iy \<ge> 0 \<and> ix < width im \<and> iy < height im
         then bindE (rd (buf im) (iy * stride im + ix)) (\<lambda>p. wr b (oy * stride out + ox) p)
         else wr b (oy * stride out + ox) pad)"

text \<open>
  \<open>cos\<close> and \<open>sin\<close> are those of the reals, stored into a \<open>float\<close>; at the angle 0 the
  library functions give exactly 1 and 0 (the sign of a zero does not show in the reals).
\<close>

definition image_u8_rotate :: "image_u8 \<Rightarrow> real \<Rightarrow> uint8 \<Rightarrow> error + image_u8" where
  "image_u8_rotate im rad pad =
     (let rad = - rad; c = binary32 (cos rad); s = binary32 (sin rad)
      in case rotate_size im c s of (owidth, oheight) \<Rightarrow>
           bindE (image_u8_create (word_of_int owidth) (word_of_int oheight)) (\<lambda>out.
           bindE (for_loop 0 oheight (\<lambda>oy. for_loop 0 owidth
                    (rotate_pixel im out c s pad owidth oheight oy)) (buf out)) (\<lambda>b.
           Inr (out\<lparr>buf := b\<rparr>))))"

text \<open>
  The bookkeeping of the two loops at the angle 0: the output pixels written so far hold
  the input pixels.  \<open>S\<close> is the stride of the output.
\<close>

definition rot_inv :: "image_u8 \<Rightarrow> int \<Rightarrow> int \<Rightarrow> int \<Rightarrow> uint8 list \<Rightarrow> bool" where
  "rot_inv im S y x t \<longleftrightarrow>
     int (length t) = S * height im \<and>
     (\<forall>r c. 0 \<le> r \<and> r < height im \<and> 0 \<le> c \<and> c < width im \<and> (r < y \<or> (r = y \<and> c < x)) \<longrightarrow>
        t ! nat (r * S + c) = buf im ! nat (r * stride im + c))"

subsection \<open>\<open>image_u8_darken\<close>\<close>

definition image_u8_darken :: "image_u8 \<Rightarrow> error + image_u8" where
  "image_u8_darken im =
     bindE (for_loop 0 (height im) (\<lambda>y. for_loop 0 (width im) (\<lambda>x b.
              bindE (rd b (stride im * y + x)) (\<lambda>p. wr b (stride im * y + x) (p div 2))))
            (buf im))
       (\<lambda>b. Inr (im\<lparr>buf := b\<rparr>))"

text \<open>
  The bookkeeping of the two loops of \<open>image_u8_darken\<close>: when the loops stand at row \<open>y\<close>
  and column \<open>x\<close>, the bytes already halved are those of the pixels of the rows above
  and of the columns to the left in row \<open>y\<close>.
\<close>

definition halved :: "image_u8 \<Rightarrow> int \<Rightarrow> int \<Rightarrow> int \<Rightarrow> bool" where
  "halved im y x k \<longleftrightarrow>
     (k div stride im < y \<and> k mod stride im < width im) \<or> (k div stride im = y \<and> k mod stride im < x)"

definition darken_inv :: "image_u8 \<Rightarrow> int \<Rightarrow> int \<Rightarrow> uint8 list \<Rightarrow> bool" where
  "darken_inv im y x b \<longleftrightarrow>
     length b = length (buf im) \<and>
     (\<forall>k < length (buf im). b ! k = (if halved im y x (int k) then buf im ! k div 2 else buf im ! k))"

text \<open>A 2 x 2 image with one padding byte per row.\<close>

definition im_2x2 :: image_u8 where
  "im_2x2 = \<lparr> width = 2, height = 2, stride = 3, buf = [10, 21, 99, 255, 0, 98] \<rparr>"






text \<open>A table of three intensities, and an index for each pixel of the 2 x 2 image.\<close>

definition lut3 :: image_u8_lut where
  "lut3 = \<lparr> nvalues = 3, lvalues = [200, 100, 50] \<rparr>"

definition idx_2x2 :: "int \<Rightarrow> int \<Rightarrow> int" where
  "idx_2x2 x y = \<bar>x\<bar> + 2 * \<bar>y\<bar>"

text \<open>A Buffer of one row of \<open>2\<^sup>2\<^sup>4 + 1\<close> pixels.\<close>

definition im_wide :: image_u8 where
  "im_wide = uniform_image 16777217 1 16777217 0"

section \<open>Loops and arrays\<close>

lemma bindE_Inr [simp]: "bindE (Inr a) f = f a"
  by (simp add: bindE_def)

lemma bindE_Inl [simp]: "bindE (Inl e) f = Inl e"
  by (simp add: bindE_def)

lemma for_loop_done [simp]: "hi \<le> i \<Longrightarrow> for_loop i hi body s = Inr s"
  by (simp add: for_loop.simps)

lemma for_loop_step: "i < hi \<Longrightarrow> for_loop i hi body s = bindE (body i s) (for_loop (i + 1) hi body)"
  by (subst for_loop.simps) simp

text \<open>The invariant rule of the counting loop: it returns, and the invariant holds at the end.\<close>

lemma for_loop_rule:
  assumes "I i s" and "i \<le> hi"
    and "\<And>j t. i \<le> j \<Longrightarrow> j < hi \<Longrightarrow> I j t \<Longrightarrow> \<exists>t'. body j t = Inr t' \<and> I (j + 1) t'"
  shows "\<exists>s'. for_loop i hi body s = Inr s' \<and> I hi s'"
  using assms
proof (induction "nat (hi - i)" arbitrary: i s)
  case 0
  then have "i = hi" by simp
  with 0 show ?case by simp
next
  case (Suc n)
  then have lt: "i < hi" by linarith
  from Suc.prems(3) [OF order_refl lt Suc.prems(1)]
  obtain t' where t': "body i s = Inr t'" "I (i + 1) t'" by blast
  have "\<exists>s'. for_loop (i + 1) hi body t' = Inr s' \<and> I hi s'"
  proof (rule Suc.hyps(1))
    show "n = nat (hi - (i + 1))" using Suc.hyps(2) by linarith
    show "I (i + 1) t'" by (rule t')
    show "i + 1 \<le> hi" using lt by simp
    fix j t assume "i + 1 \<le> j" "j < hi" "I j t"
    then show "\<exists>t'. body j t = Inr t' \<and> I (j + 1) t'"
      using Suc.prems(3) [of j t] by simp
  qed
  then show ?case by (simp add: for_loop_step [OF lt] t')
qed

lemma rd_in [simp]: "0 \<le> i \<Longrightarrow> i < int (length xs) \<Longrightarrow> rd xs i = Inr (xs ! nat i)"
  by (simp add: rd_def)

lemma wr_in [simp]: "0 \<le> i \<Longrightarrow> i < int (length xs) \<Longrightarrow> wr xs i v = Inr (xs[nat i := v])"
  by (simp add: wr_def)


text \<open>Row-major indices: \<open>y * stride + x\<close> with \<open>0 \<le> x < stride\<close> determines \<open>y\<close> and \<open>x\<close>.\<close>

lemma idx_div_mod:
  fixes s y x :: int
  assumes "0 \<le> x" "x < s"
  shows "(s * y + x) div s = y" "(s * y + x) mod s = x"
  using assms by (simp_all add: div_pos_pos_trivial)

lemma idx_eq_iff:
  fixes s y x k :: int
  assumes "0 \<le> x" "x < s"
  shows "k = s * y + x \<longleftrightarrow> k div s = y \<and> k mod s = x"
  using assms idx_div_mod[OF assms] by (metis mult_div_mod_eq)

lemma idx_in_range:
  fixes s y x h :: int
  assumes "0 \<le> x" "x < s" "0 \<le> y" "y < h"
  shows "0 \<le> s * y + x" "s * y + x < s * h"
proof -
  show "0 \<le> s * y + x" using assms by simp
  have "s * y + x < s * y + s" using assms by simp
  also have "\<dots> = s * (y + 1)" by (simp add: algebra_simps)
  also have "\<dots> \<le> s * h" using assms by (intro mult_left_mono) auto
  finally show "s * y + x < s * h" .
qed

lemma idx_inj:
  fixes s x y px py :: int
  assumes "0 \<le> x" "x < s" "0 \<le> px" "px < s"
  shows "py * s + px = y * s + x \<longleftrightarrow> py = y \<and> px = x"
proof
  assume e: "py * s + px = y * s + x"
  have "(s * py + px) div s = py" "(s * py + px) mod s = px"
    using idx_div_mod [OF assms(3,4)] by simp_all
  moreover have "(s * y + x) div s = y" "(s * y + x) mod s = x"
    using idx_div_mod [OF assms(1,2)] by simp_all
  ultimately show "py = y \<and> px = x" using e by (metis mult.commute)
qed simp

lemma nth_update4:
  "k < length b \<Longrightarrow>
   b[i0 := w, i1 := w, i2 := w, i3 := w] ! k = (if k = i3 \<or> k = i2 \<or> k = i1 \<or> k = i0 then w else b ! k)"
  by (cases "k = i3"; cases "k = i2"; cases "k = i1"; cases "k = i0"; simp)

text \<open>Further rules for the counting loop.\<close>

lemma for_loop_preserves:
  assumes "P s" and "\<And>j t. P t \<Longrightarrow> \<exists>t'. body j t = Inr t' \<and> P t'"
  shows "\<exists>s'. for_loop i hi body s = Inr s' \<and> P s'"
proof (cases "i \<le> hi")
  case True
  then show ?thesis using assms by (intro for_loop_rule [where I = "\<lambda>j. P"]) auto
next
  case False
  then show ?thesis using assms(1) by simp
qed


lemma for_loop_fill:
  assumes body: "\<And>i t. lo \<le> i \<Longrightarrow> i < hi \<Longrightarrow> length t = length y \<Longrightarrow>
                   body i t = wr t (off + i) (val i)"
    and rng: "lo < hi \<Longrightarrow> 0 \<le> off + lo \<and> off + hi \<le> int (length y)"
  shows "\<exists>y'. for_loop lo hi body y = Inr y' \<and> length y' = length y \<and>
           (\<forall>p < length y. y' ! p =
              (if off + lo \<le> int p \<and> int p < off + hi then val (int p - off) else y ! p))"
proof (cases "lo < hi")
  case False
  then show ?thesis by auto
next
  case True
  let ?I = "\<lambda>j t. length t = length y \<and>
              (\<forall>p < length y. t ! p =
                 (if off + lo \<le> int p \<and> int p < off + j then val (int p - off) else y ! p))"
  have "\<exists>y'. for_loop lo hi body y = Inr y' \<and> ?I hi y'"
  proof (rule for_loop_rule [where I = ?I])
    show "?I lo y" by auto
    show "lo \<le> hi" using True by simp
    fix j t assume j: "lo \<le> j" "j < hi" and t: "?I j t"
    have r: "0 \<le> off + j" "off + j < int (length t)" using rng [OF True] j t by simp_all
    have "?I (j + 1) (t[nat (off + j) := val j])"
    proof (intro conjI allI impI)
      show "length (t[nat (off + j) := val j]) = length y" using t by simp
      fix p assume p: "p < length y"
      show "t[nat (off + j) := val j] ! p =
            (if off + lo \<le> int p \<and> int p < off + (j + 1) then val (int p - off) else y ! p)"
      proof (cases "int p = off + j")
        case True
        then have "p = nat (off + j)" by simp
        moreover have "int p - off = j" using True by simp
        ultimately show ?thesis using p t j True by simp
      next
        case False
        then have "p \<noteq> nat (off + j)" using r by auto
        then show ?thesis using p t False by auto
      qed
    qed
    then show "\<exists>t'. body j t = Inr t' \<and> ?I (j + 1) t'"
      using body [OF j] t r by simp
  qed
  then show ?thesis by blast
qed

section \<open>Allocation rounds the stride up\<close>

lemma sint_small:
  assumes "unat (x :: 32 word) < 2 ^ 31"
  shows "sint x = int (unat x)"
proof -
  have u: "uint x = int (unat x)" by (rule uint_nat)
  have "uint x < 2 ^ 31"
    using assms by (metis of_nat_less_iff of_nat_numeral of_nat_power uint_nat)
  moreover have "- (2 ^ 31) \<le> (0 :: int)" by simp
  then have "- (2 ^ 31) \<le> uint x" by (rule order_trans) simp
  ultimately have "signed_take_bit 31 (uint x) = uint x"
    by (intro signed_take_bit_int_eq_self)
  then show ?thesis unfolding u [symmetric] by (simp add: sint_uint)
qed

lemma round_up_if:
  assumes "0 < a"
  shows "round_up w a = (if w mod a = 0 then w else w + (a - w mod a))"
proof (cases "w mod a = 0")
  case True
  then obtain q where q: "w = q * a" by (metis mod_eq_0_iff_dvd dvd_def mult.commute)
  have "(q * a + a - 1) div a = q"
    using assms by (intro div_nat_eqI) (simp_all add: algebra_simps)
  then show ?thesis using True q by (simp add: round_up_def)
next
  case False
  define q r where "q = w div a" and "r = w mod a"
  have w: "w = q * a + r" and r: "0 < r" "r < a"
    using False assms by (simp_all add: q_def r_def)
  have "(q * a + r + a - 1) div a = q + 1"
    using r by (intro div_nat_eqI) (simp_all add: algebra_simps)
  then have "round_up w a = (q + 1) * a" by (simp add: round_up_def w)
  also have "\<dots> = w + (a - r)" using r by (simp add: w algebra_simps)
  finally show ?thesis using False by (simp add: r_def)
qed

lemma round_up_least:
  assumes "0 < a"
  shows "a dvd round_up w a" "w \<le> round_up w a" "a dvd m \<Longrightarrow> w \<le> m \<Longrightarrow> round_up w a \<le> m"
proof -
  show "a dvd round_up w a" by (simp add: round_up_def)
  show "w \<le> round_up w a"
  proof -
    have "w mod a < a" using assms by simp
    then show ?thesis unfolding round_up_if [OF assms] by (cases "w mod a = 0") simp_all
  qed
  assume "a dvd m" "w \<le> m"
  then obtain k where k: "m = k * a" by (metis dvd_def mult.commute)
  have "(w + a - 1) div a \<le> k"
  proof -
    have "w + a - 1 < (k + 1) * a" using \<open>w \<le> m\<close> k assms by (simp add: algebra_simps)
    then have "(w + a - 1) div a < k + 1" using assms by (simp add: less_mult_imp_div_less)
    then show ?thesis by simp
  qed
  then show "round_up w a \<le> m" by (simp add: round_up_def k)
qed

lemma stride_word:
  fixes w a :: "32 word"
  assumes a: "a \<noteq> 0" and fit: "round_up (unat w) (unat a) < 2 ^ 32"
  shows "unat (if w mod a \<noteq> 0 then w + (a - w mod a) else w) = round_up (unat w) (unat a)"
proof -
  have a0: "0 < unat a" using a by (simp add: unat_gt_0)
  have m: "unat (w mod a) = unat w mod unat a" by (simp add: unat_mod)
  have z: "w mod a = 0 \<longleftrightarrow> unat w mod unat a = 0"
    using m by (metis unat_eq_0)
  show ?thesis
  proof (cases "w mod a = 0")
    case True
    then show ?thesis using z a0 by (simp add: round_up_if)
  next
    case False
    have lt: "unat w mod unat a < unat a" using a0 by simp
    have le: "w mod a \<le> a" using lt m by (simp add: word_le_nat_alt)
    have s: "unat (a - w mod a) = unat a - unat w mod unat a"
      using unat_sub [OF le] m by simp
    have r: "round_up (unat w) (unat a) = unat w + (unat a - unat w mod unat a)"
      using False z a0 by (simp add: round_up_if)
    have "unat (w + (a - w mod a)) = unat w + unat (a - w mod a)"
      using fit r s by (simp add: unat_add_lem [THEN iffD1])
    then show ?thesis using False r s by simp
  qed
qed

lemma create_alignment_fits:
  fixes w h a :: "32 word"
  assumes a: "a \<noteq> 0"
    and fit: "round_up (unat w) (unat a) < 2 ^ 31" "unat h < 2 ^ 31"
             "round_up (unat w) (unat a) * unat h < 2 ^ 32"
  shows "image_u8_create_alignment w h a =
           Inr \<lparr> width = int (unat w), height = int (unat h),
                 stride = int (round_up (unat w) (unat a)),
                 buf = replicate (round_up (unat w) (unat a) * unat h) 0 \<rparr>"
proof -
  let ?S = "round_up (unat w) (unat a)"
  let ?s = "if w mod a \<noteq> 0 then w + (a - w mod a) else w"
  have a0: "0 < unat a" using a by (simp add: unat_gt_0)
  have s: "unat ?s = ?S" using fit(1) by (intro stride_word [OF a]) simp
  have wS: "unat w \<le> ?S" by (rule round_up_least(2) [OF a0])
  have "unat (h * ?s) = unat h * unat ?s"
    using fit(3) s by (simp add: unat_mult_lem [THEN iffD1] mult.commute)
  then have len: "unat (h * ?s) = ?S * unat h" using s by (simp add: mult.commute)
  have f: "sint w = int (unat w)" "sint h = int (unat h)" "sint ?s = int ?S"
    using fit(1,2) wS s by (simp_all add: sint_small)
  have "image_u8_create_alignment w h a = Inr (image_u8_create_stride w h ?s)"
    using a by (simp add: image_u8_create_alignment_def Let_def)
  moreover have "image_u8_create_stride w h ?s =
      \<lparr> width = int (unat w), height = int (unat h), stride = int ?S, buf = replicate (?S * unat h) 0 \<rparr>"
    unfolding image_u8_create_stride_def using f len by simp
  ultimately show ?thesis by simp
qed

text \<open>
  Claim C3, amended.  For a non-zero alignment, when the smallest multiple \<open>S\<close> of the
  alignment that is at least the width is below \<open>2 ^ 31\<close>, the height is below \<open>2 ^ 31\<close>
  and \<open>S * height\<close> is below \<open>2 ^ 32\<close>, \<open>image_u8_create_alignment\<close> returns a Buffer with
  the given width and height, with stride \<open>S\<close> (a multiple of the alignment, at least the
  width, and the least such), and with an array of \<open>S * height\<close> zero bytes;
  \<open>image_u8_create\<close> is \<open>image_u8_create_alignment\<close> at the alignment 96.
\<close>

theorem create_alignment_rounds_stride_up:
  fixes w h a :: "32 word"
  assumes a: "a \<noteq> 0"
    and fit: "round_up (unat w) (unat a) < 2 ^ 31" "unat h < 2 ^ 31"
             "round_up (unat w) (unat a) * unat h < 2 ^ 32"
  shows "\<exists>im. image_u8_create_alignment w h a = Inr im \<and>
           width im = int (unat w) \<and> height im = int (unat h) \<and>
           stride im = int (round_up (unat w) (unat a)) \<and>
           unat a dvd round_up (unat w) (unat a) \<and> unat w \<le> round_up (unat w) (unat a) \<and>
           (\<forall>m. unat a dvd m \<and> unat w \<le> m \<longrightarrow> round_up (unat w) (unat a) \<le> m) \<and>
           buf im = replicate (round_up (unat w) (unat a) * unat h) 0 \<and>
           image_u8_create w h = image_u8_create_alignment w h 96"
proof -
  let ?S = "round_up (unat w) (unat a)"
  have a0: "0 < unat a" using a by (simp add: unat_gt_0)
  have "unat a dvd ?S" by (rule round_up_least(1) [OF a0])
  moreover have "unat w \<le> ?S" by (rule round_up_least(2) [OF a0])
  moreover have "\<forall>m. unat a dvd m \<and> unat w \<le> m \<longrightarrow> ?S \<le> m"
    using round_up_least(3) [OF a0] by blast
  ultimately show ?thesis
    using create_alignment_fits [OF a fit]
    by (simp add: image_u8_create_def DEFAULT_ALIGNMENT_U8_def)
qed

theorem create_alignment_rounds_stride_up_witness:
  "(4 :: 32 word) \<noteq> 0 \<and> round_up (unat (5 :: 32 word)) (unat (4 :: 32 word)) = 8 \<and>
   (\<exists>im. image_u8_create_alignment 5 2 4 = Inr im \<and> width im = 5 \<and> height im = 2 \<and>
      stride im = 8 \<and> buf im = replicate 16 0)"
proof -
  have r: "round_up (unat (5 :: 32 word)) (unat (4 :: 32 word)) = 8" by (simp add: round_up_def)
  have "\<exists>im. image_u8_create_alignment 5 2 (4 :: 32 word) = Inr im \<and>
           width im = int (unat (5 :: 32 word)) \<and> height im = int (unat (2 :: 32 word)) \<and>
           stride im = int (round_up (unat (5 :: 32 word)) (unat (4 :: 32 word))) \<and>
           unat (4 :: 32 word) dvd round_up (unat (5 :: 32 word)) (unat (4 :: 32 word)) \<and>
           unat (5 :: 32 word) \<le> round_up (unat (5 :: 32 word)) (unat (4 :: 32 word)) \<and>
           (\<forall>m. unat (4 :: 32 word) dvd m \<and> unat (5 :: 32 word) \<le> m \<longrightarrow>
                round_up (unat (5 :: 32 word)) (unat (4 :: 32 word)) \<le> m) \<and>
           buf im = replicate (round_up (unat (5 :: 32 word)) (unat (4 :: 32 word)) * unat (2 :: 32 word)) 0 \<and>
           image_u8_create 5 2 = image_u8_create_alignment 5 2 96"
    by (rule create_alignment_rounds_stride_up) (simp_all add: round_up_def)
  then show ?thesis using r by auto
qed

text \<open>
  Claim C3 as stated, for every width, height and positive alignment, fails where the
  32-bit arithmetic wraps: a 65536 x 65536 request gets an array of \<open>2 ^ 32 mod 2 ^ 32 = 0\<close>
  bytes, and a width of \<open>2 ^ 31 - 1\<close> aligned to 2 gets the stride field \<open>- 2 ^ 31\<close>.
\<close>

theorem create_alignment_wraps_counterexample:
  "image_u8_create_alignment 65536 65536 1 =
     Inr \<lparr> width = 65536, height = 65536, stride = 65536, buf = [] \<rparr> \<and>
   image_u8_create_alignment 2147483647 1 2 =
     Inr \<lparr> width = 2147483647, height = 1, stride = - 2147483648, buf = replicate 2147483648 0 \<rparr>"
  by (simp add: image_u8_create_alignment_def image_u8_create_stride_def)


section \<open>Decimation\<close>

lemmas ev = image_u8_decimate_def decimate_block_def decimate_generic_def uniform_image_def
  image_u8_create_def image_u8_create_alignment_def image_u8_create_stride_def DEFAULT_ALIGNMENT_U8_def
  cdiv_def taps2_def taps3_def taps4_def sq_def for_loop.simps for_loop_by.simps rd_def wr_def Let_def


text \<open>
  Claim C1 fails on the scalar path of the factor 4: it adds 12 bytes (rows 0 to 2 of the
  4 x 4 block, one byte of row 1 twice, none of row 3) and shifts by 4, so a 4 x 4 Buffer
  that is 255 everywhere gives the pixel \<open>12 * 255 div 16 = 191\<close>.
\<close>

theorem decimate4_uniform_darkens:
  "image_u8_decimate (uniform_image 4 4 4 255) 4 =
     Inr \<lparr> width = 1, height = 1, stride = 96, buf = (replicate 96 0)[0 := 191] \<rparr>"
  by (simp add: ev)

text \<open>
  Claim C2 fails on the generic path when a dimension is not a multiple of the factor.
  At the factor 5, a 7 x 5 Buffer makes the loop over \<open>x < width\<close> write \<open>row[1]\<close> of a
  one-element \<open>row\<close>, and a 5 x 7 Buffer makes the loop over \<open>y < height\<close> start a second
  block at \<open>y = 5\<close>, which reads the source rows 7 to 9.
\<close>

theorem decimate_generic_leaves_arrays:
  "image_u8_decimate (uniform_image 7 5 7 255) 5 = Inl OutOfBounds \<and>
   image_u8_decimate (uniform_image 5 7 5 255) 5 = Inl OutOfBounds"
  by (simp add: ev)

text \<open>
  The factors 2 and 3 and the generic path on whole blocks do keep a uniform Buffer:
  the example of the specification, and one block each for 3 and 5.
\<close>

lemma decimate2_uniform_4x4:
  "image_u8_decimate (uniform_image 4 4 4 v) 2 =
     Inr \<lparr> width = 2, height = 2, stride = 96,
           buf = (replicate 192 0)[0 := v, 1 := v, 96 := v, 97 := v] \<rparr>"
proof -
  have "drop_bit 2 (uint v + (uint v + (uint v + uint v))) = uint v"
    by (simp add: drop_bit_eq_div)
  then show ?thesis by (simp add: ev)
qed

lemma decimate3_uniform_3x3:
  "image_u8_decimate (uniform_image 3 3 3 v) 3 =
     Inr \<lparr> width = 1, height = 1, stride = 96, buf = (replicate 96 0)[0 := v] \<rparr>"
proof -
  have "drop_bit 3 (uint v + (uint v + (uint v + (uint v + (uint v + (uint v + (uint v + uint v))))))) = uint v"
    by (simp add: drop_bit_eq_div)
  then show ?thesis by (simp add: ev)
qed

lemma decimate_generic_exact_5x5:
  "image_u8_decimate (uniform_image 5 5 5 255) 5 =
     Inr \<lparr> width = 1, height = 1, stride = 96, buf = (replicate 96 0)[0 := 255] \<rparr>"
  by (simp add: ev)


section \<open>The convolution pass\<close>

lemmas evc = convolve_def cdiv_def for_loop.simps rd_def wr_def


text \<open>
  Claim C4 as stated fails in three ways.  With 4 samples and a kernel of length 3,
  position 2 is not among the last \<open>k/2 = 1\<close> positions, yet it is copied (200) and not
  filtered; with a kernel of three weights 255 the shifted sum is 762, and the byte stored
  is \<open>762 mod 256 = 250\<close>; with 1 sample and a kernel of length 3 the last loop starts at
  the index \<open>- 1\<close>.
\<close>

theorem convolve_border_and_truncation_counterexample:
  "convolve [10, 20, 200, 40] [0, 0, 0, 0] 4 [85, 85, 85] 3 = Inr [10, 76, 200, 40] \<and>
   convolve [255, 255, 255, 255] [0, 0, 0, 0] 4 [255, 255, 255] 3 = Inr [255, 250, 255, 255] \<and>
   weighted_sum [255, 255, 255] [255, 255, 255, 255] 0 3 div 2 ^ 8 = 762 \<and>
   convolve [7] [0] 1 [1, 1, 1] 3 = Inl OutOfBounds"
  by (simp add: evc weighted_sum_def numeral_3_eq_3)


lemma weighted_sum_Suc:
  "weighted_sum k x i (Suc n) = weighted_sum k x i n + uint (k ! n) * uint (x ! (i + n))"
  by (simp add: weighted_sum_def)

lemma convolve_acc:
  assumes "0 \<le> i" "0 \<le> ksz" "i + ksz \<le> int (length x)" "ksz \<le> int (length k)"
  shows "for_loop 0 ksz (\<lambda>j acc.
            bindE (rd k j) (\<lambda>kj.
            bindE (rd x (i + j)) (\<lambda>xv.
            Inr (acc + word_of_int (uint kj * uint xv))))) (0 :: 32 word)
         = Inr (word_of_int (weighted_sum k x (nat i) (nat ksz)))"
proof -
  let ?body = "\<lambda>j acc. bindE (rd k j) (\<lambda>kj. bindE (rd x (i + j)) (\<lambda>xv.
                 Inr (acc + word_of_int (uint kj * uint xv) :: 32 word)))"
  let ?I = "\<lambda>j acc. acc = (word_of_int (weighted_sum k x (nat i) (nat j)) :: 32 word)"
  have "\<exists>a. for_loop 0 ksz ?body 0 = Inr a \<and> ?I ksz a"
  proof (rule for_loop_rule [where I = ?I])
    show "?I 0 0" by (simp add: weighted_sum_def)
    show "0 \<le> ksz" by fact
    fix j t assume j: "0 \<le> j" "j < ksz" and t: "?I j t"
    have n: "nat (j + 1) = Suc (nat j)" "nat (i + j) = nat i + nat j"
      using j assms by (simp_all add: nat_add_distrib)
    have "?body j t = Inr (t + word_of_int (uint (k ! nat j) * uint (x ! nat (i + j))))"
      using j assms by simp
    then show "\<exists>t'. ?body j t = Inr t' \<and> ?I (j + 1) t'"
      using t by (simp add: n weighted_sum_Suc)
  qed
  then show ?thesis by simp
qed

lemma ucast_drop_bit_32_8:
  "(ucast (drop_bit 8 (word_of_int s :: 32 word)) :: uint8) = word_of_int (s mod 2 ^ 32 div 2 ^ 8)"
proof -
  have "uint (drop_bit 8 (word_of_int s :: 32 word)) = s mod 2 ^ 32 div 2 ^ 8"
    by (simp add: drop_bit_eq_div uint_div uint_word_of_int)
  then show ?thesis by (simp only: ucast_eq)
qed

text \<open>
  Claim C4, amended.  For an odd kernel of length \<open>k\<close> and a source of length \<open>n > k/2\<close>,
  the pass returns; it copies the first \<open>k/2\<close> and the last \<open>k/2 + 1\<close> positions from the
  source; every other position \<open>p < n\<close>, that is \<open>p = i + k/2\<close> with \<open>i\<close> in \<open>[0, n - k)\<close>,
  holds the low 8 bits of \<open>(sum\<^sub>j kernel[j] * source[i + j] mod 2\<^sup>3\<^sup>2) >> 8\<close>; the
  destination beyond \<open>n\<close> is untouched.
\<close>

theorem convolve_copies_border_filters_interior:
  assumes odd: "ksz AND 1 = 1" and pos: "0 < ksz"
    and kl: "ksz \<le> int (length k)" and xl: "sz \<le> int (length x)" and yl: "sz \<le> int (length y)"
    and big: "ksz div 2 < sz"
  shows "\<exists>y'. convolve x y sz k ksz = Inr y' \<and> length y' = length y \<and>
           (\<forall>p < length y. y' ! p =
              (if int p < ksz div 2 \<or> (sz - ksz div 2 - 1 \<le> int p \<and> int p < sz) then x ! p
               else if int p < sz then filtered k x (p - nat (ksz div 2)) (nat ksz)
               else y ! p))"
proof -
  define h where "h = ksz div 2"
  have h0: "0 \<le> h" using pos by (simp add: h_def)
  have "odd ksz" using odd by (simp add: and_one_eq mod_2_eq_odd)
  then have ksz: "ksz = 2 * h + 1" unfolding h_def by (metis odd_two_times_div_two_succ)
  have cd: "cdiv ksz 2 = h" using pos by (simp add: cdiv_def h_def)
  have hb: "h < sz" using big by (simp add: h_def)
  have mn: "min h sz = h" using hb by simp
  let ?copy = "\<lambda>i y. bindE (rd x i) (\<lambda>v. wr y i v)"
  let ?acc = "\<lambda>i. for_loop 0 ksz (\<lambda>j acc. bindE (rd k j) (\<lambda>kj. bindE (rd x (i + j)) (\<lambda>xv.
                 Inr (acc + word_of_int (uint kj * uint xv)))) ) (0 :: 32 word)"
  let ?filt = "\<lambda>i y. bindE (?acc i) (\<lambda>acc. wr y (h + i) (ucast (drop_bit 8 acc)))"
  have copy: "?copy i t = wr t (0 + i) (x ! nat i)" if "0 \<le> i" "i < sz" for i and t :: "uint8 list"
    using that xl by simp
  \<comment> \<open>first loop\<close>
  have "\<exists>y1. for_loop 0 h ?copy y = Inr y1 \<and> length y1 = length y \<and>
           (\<forall>p < length y. y1 ! p =
              (if 0 + 0 \<le> int p \<and> int p < 0 + h then x ! nat (int p - 0) else y ! p))"
  proof (rule for_loop_fill [where off = 0 and val = "\<lambda>i. x ! nat i"])
    fix i and t :: "uint8 list" assume "0 \<le> i" "i < h"
    then show "?copy i t = wr t (0 + i) (x ! nat i)" using copy [of i t] hb by simp
  next
    show "0 \<le> 0 + (0 :: int) \<and> 0 + h \<le> int (length y)" using hb yl by simp
  qed
  then obtain y1 where l1: "for_loop 0 h ?copy y = Inr y1" and len1: "length y1 = length y"
    and c1: "\<And>p. p < length y \<Longrightarrow> y1 ! p = (if int p < h then x ! p else y ! p)"
    by auto
  \<comment> \<open>second loop\<close>
  have filt: "?filt i t = wr t (h + i) (filtered k x (nat i) (nat ksz))"
    if "0 \<le> i" "i < sz - ksz" for i and t :: "uint8 list"
  proof -
    have "?acc i = Inr (word_of_int (weighted_sum k x (nat i) (nat ksz)))"
      by (rule convolve_acc) (use that pos kl xl in auto)
    then show ?thesis by (simp add: ucast_drop_bit_32_8 filtered_def)
  qed
  have "\<exists>y2. for_loop 0 (sz - ksz) ?filt y1 = Inr y2 \<and> length y2 = length y1 \<and>
           (\<forall>p < length y1. y2 ! p =
              (if h + 0 \<le> int p \<and> int p < h + (sz - ksz)
               then filtered k x (nat (int p - h)) (nat ksz) else y1 ! p))"
  proof (rule for_loop_fill [where off = h and val = "\<lambda>i. filtered k x (nat i) (nat ksz)"])
    fix i and t :: "uint8 list" assume "0 \<le> i" "i < sz - ksz"
    then show "?filt i t = wr t (h + i) (filtered k x (nat i) (nat ksz))" by (rule filt)
  next
    show "0 \<le> h + 0 \<and> h + (sz - ksz) \<le> int (length y1)" using h0 yl len1 ksz by simp
  qed
  then obtain y2 where l2: "for_loop 0 (sz - ksz) ?filt y1 = Inr y2" and len2: "length y2 = length y"
    and c2: "\<And>p. p < length y \<Longrightarrow> y2 ! p =
               (if h \<le> int p \<and> int p < sz - h - 1
                then filtered k x (nat (int p - h)) (nat ksz) else y1 ! p)"
    using len1 ksz by auto
  \<comment> \<open>third loop\<close>
  have "\<exists>y3. for_loop (sz - ksz + h) sz ?copy y2 = Inr y3 \<and> length y3 = length y2 \<and>
           (\<forall>p < length y2. y3 ! p =
              (if 0 + (sz - ksz + h) \<le> int p \<and> int p < 0 + sz then x ! nat (int p - 0) else y2 ! p))"
  proof (rule for_loop_fill [where off = 0 and val = "\<lambda>i. x ! nat i"])
    fix i and t :: "uint8 list" assume "sz - ksz + h \<le> i" "i < sz"
    then have "0 \<le> i" "i < sz" using hb ksz by simp_all
    then show "?copy i t = wr t (0 + i) (x ! nat i)" using copy [of i t] by simp
  next
    show "0 \<le> 0 + (sz - ksz + h) \<and> 0 + sz \<le> int (length y2)"
      using hb yl len2 ksz by simp
  qed
  then obtain y3 where l3: "for_loop (sz - ksz + h) sz ?copy y2 = Inr y3" and len3: "length y3 = length y"
    and c3: "\<And>p. p < length y \<Longrightarrow> y3 ! p =
               (if sz - h - 1 \<le> int p \<and> int p < sz then x ! p else y2 ! p)"
    using len2 ksz by auto
  have run: "convolve x y sz k ksz = Inr y3"
    unfolding convolve_def cd mn by (simp only: odd l1 l2 l3 bindE_Inr simp_thms if_False)
  have "y3 ! p = (if int p < h \<or> (sz - h - 1 \<le> int p \<and> int p < sz) then x ! p
                  else if int p < sz then filtered k x (p - nat h) (nat ksz) else y ! p)"
    if p: "p < length y" for p
  proof -
    have "nat (int p - h) = p - nat h" using h0 by linarith
    then show ?thesis using c3 [OF p] c2 [OF p] c1 [OF p] by auto
  qed
  then show ?thesis using run len3 by (simp add: h_def)
qed


theorem convolve_copies_border_filters_interior_witness:
  "(3 :: int) AND 1 = 1 \<and> (3 :: int) div 2 < 4 \<and>
   (\<exists>y'. convolve [10, 20, 200, 40] [0, 0, 0, 0] 4 [85, 85, 85] 3 = Inr y' \<and>
      length y' = 4 \<and> y' ! 0 = 10 \<and> y' ! 1 = 76 \<and> y' ! 2 = 200 \<and> y' ! 3 = 40)"
proof -
  let ?x = "[10, 20, 200, 40] :: uint8 list" and ?y = "[0, 0, 0, 0] :: uint8 list"
  let ?k = "[85, 85, 85] :: uint8 list"
  have odd: "(3 :: int) AND 1 = 1" by simp
  have f: "filtered ?k ?x 0 3 = 76"
    by (simp add: filtered_def weighted_sum_def numeral_3_eq_3)
  from convolve_copies_border_filters_interior [of 3 ?k 4 ?x ?y, OF odd]
  obtain y' where r: "convolve ?x ?y 4 ?k 3 = Inr y'" "length y' = length ?y"
    and c: "\<And>p. p < length ?y \<Longrightarrow> y' ! p =
              (if int p < 3 div 2 \<or> (4 - 3 div 2 - 1 \<le> int p \<and> int p < 4) then ?x ! p
               else if int p < 4 then filtered ?k ?x (p - nat (3 div 2)) (nat 3)
               else ?y ! p)"
    by auto
  have "y' ! 0 = 10" using c [of 0] by simp
  moreover have "y' ! 1 = 76" using c [of 1] f by simp
  moreover have "y' ! 2 = 200" using c [of 2] by simp
  moreover have "y' ! 3 = 40" using c [of 3] by simp
  ultimately show ?thesis using r by simp
qed


section \<open>\<open>image_u8_darken\<close> touches the pixels only\<close>

lemma darken_inner:
  assumes v: "valid_image im" and y: "0 \<le> y" "y < height im" and inv: "darken_inv im y 0 b"
  shows "\<exists>b'. for_loop 0 (width im) (\<lambda>x b.
              bindE (rd b (stride im * y + x)) (\<lambda>p. wr b (stride im * y + x) (p div 2))) b = Inr b'
            \<and> darken_inv im (y + 1) 0 b'"
proof -
  let ?body = "\<lambda>x b. bindE (rd b (stride im * y + x)) (\<lambda>p. wr b (stride im * y + x) (p div 2))"
  have len: "int (length (buf im)) = stride im * height im" and w0: "0 \<le> width im"
    and ws: "width im \<le> stride im"
    using v by (simp_all add: valid_image_def)
  have "\<exists>b'. for_loop 0 (width im) ?body b = Inr b' \<and> darken_inv im y (width im) b'"
  proof (rule for_loop_rule [where I = "darken_inv im y"])
    show "darken_inv im y 0 b" by (rule inv)
    show "0 \<le> width im" by (rule w0)
    fix x t assume x: "0 \<le> x" "x < width im" and t: "darken_inv im y x t"
    let ?i = "stride im * y + x"
    have xs: "x < stride im" using x ws by simp
    have i0: "0 \<le> ?i" and il: "?i < int (length (buf im))"
      using idx_in_range [OF x(1) xs y] len by simp_all
    have lt: "length t = length (buf im)" using t by (simp add: darken_inv_def)
    have nh: "\<not> halved im y x ?i"
      using idx_div_mod [OF x(1) xs, of y] by (simp add: halved_def)
    have ti: "t ! nat ?i = buf im ! nat ?i"
      using t nh i0 il by (simp add: darken_inv_def)
    have step: "halved im y (x + 1) k \<longleftrightarrow> halved im y x k \<or> k = ?i" for k
      unfolding idx_eq_iff [OF x(1) xs] halved_def by auto
    have "darken_inv im y (x + 1) (t[nat ?i := t ! nat ?i div 2])"
      unfolding darken_inv_def
    proof (intro conjI allI impI)
      show "length (t[nat ?i := t ! nat ?i div 2]) = length (buf im)" using lt by simp
      fix k assume k: "k < length (buf im)"
      show "t[nat ?i := t ! nat ?i div 2] ! k =
            (if halved im y (x + 1) (int k) then buf im ! k div 2 else buf im ! k)"
      proof (cases "int k = ?i")
        case True
        then have "k = nat ?i" by simp
        then show ?thesis using k lt ti step [of "int k"] True by simp
      next
        case False
        then have "k \<noteq> nat ?i" using i0 by auto
        then show ?thesis using k lt t step [of "int k"] False by (simp add: darken_inv_def)
      qed
    qed
    then show "\<exists>t'. ?body x t = Inr t' \<and> darken_inv im y (x + 1) t'"
      using i0 il lt by simp
  qed
  moreover have "halved im y (width im) k \<longleftrightarrow> halved im (y + 1) 0 k" if "0 \<le> k" for k
  proof -
    have "0 \<le> k mod stride im"
      using that ws w0 by (cases "stride im = 0") (simp_all add: pos_mod_sign)
    then show ?thesis by (auto simp: halved_def)
  qed
  ultimately show ?thesis by (simp add: darken_inv_def)
qed


text \<open>
  Claim C10.  On a Buffer that satisfies the invariant, \<open>image_u8_darken\<close> returns; the
  \<open>width\<close>, \<open>height\<close> and \<open>stride\<close> fields and the length of the array are as before;
  every pixel in \<open>[0, width) \<times> [0, height)\<close> holds its old value divided by 2, rounded
  down; every padding byte, at a row offset in \<open>[width, stride)\<close>, holds its old value.
\<close>

theorem darken_halves_pixels_only:
  assumes v: "valid_image im"
  shows "\<exists>im'. image_u8_darken im = Inr im' \<and>
           width im' = width im \<and> height im' = height im \<and> stride im' = stride im \<and>
           length (buf im') = length (buf im) \<and>
           (\<forall>y x. 0 \<le> y \<and> y < height im \<and> 0 \<le> x \<and> x < width im \<longrightarrow>
                  buf im' ! nat (stride im * y + x) = buf im ! nat (stride im * y + x) div 2) \<and>
           (\<forall>y x. 0 \<le> y \<and> y < height im \<and> width im \<le> x \<and> x < stride im \<longrightarrow>
                  buf im' ! nat (stride im * y + x) = buf im ! nat (stride im * y + x))"
proof -
  let ?inner = "\<lambda>y. for_loop 0 (width im) (\<lambda>x b.
              bindE (rd b (stride im * y + x)) (\<lambda>p. wr b (stride im * y + x) (p div 2)))"
  have len: "int (length (buf im)) = stride im * height im" and w0: "0 \<le> width im"
    and h0: "0 \<le> height im" and ws: "width im \<le> stride im"
    using v by (simp_all add: valid_image_def)
  have "\<exists>b'. for_loop 0 (height im) ?inner (buf im) = Inr b' \<and> darken_inv im (height im) 0 b'"
  proof (rule for_loop_rule [where I = "\<lambda>y. darken_inv im y 0"])
    have "\<not> halved im 0 0 (int k)" for k
    proof -
      have "0 \<le> int k div stride im"
        using w0 ws by (cases "stride im = 0") (simp_all add: pos_imp_zdiv_nonneg_iff)
      moreover have "0 \<le> int k mod stride im"
        using ws w0 by (cases "stride im = 0") (simp_all add: pos_mod_sign)
      ultimately show ?thesis by (simp add: halved_def)
    qed
    then show "darken_inv im 0 0 (buf im)" by (simp add: darken_inv_def)
    show "0 \<le> height im" by (rule h0)
    fix y t assume "0 \<le> y" "y < height im" "darken_inv im y 0 t"
    then show "\<exists>t'. ?inner y t = Inr t' \<and> darken_inv im (y + 1) 0 t'"
      by (rule darken_inner [OF v])
  qed
  then obtain b' where run: "for_loop 0 (height im) ?inner (buf im) = Inr b'"
    and fin: "darken_inv im (height im) 0 b'" by blast
  have res: "image_u8_darken im = Inr (im\<lparr>buf := b'\<rparr>)"
    by (simp add: image_u8_darken_def run)
  have lb: "length b' = length (buf im)" using fin by (simp add: darken_inv_def)
  have pix: "b' ! nat (stride im * y + x) = buf im ! nat (stride im * y + x) div 2"
    if "0 \<le> y" "y < height im" "0 \<le> x" "x < width im" for y x
  proof -
    have xs: "x < stride im" using that ws by simp
    have r: "0 \<le> stride im * y + x" "stride im * y + x < int (length (buf im))"
      using idx_in_range [OF that(3) xs that(1,2)] len by simp_all
    have "halved im (height im) 0 (stride im * y + x)"
      using idx_div_mod [OF that(3) xs, of y] that by (simp add: halved_def)
    then show ?thesis using fin r by (simp add: darken_inv_def)
  qed
  have pad: "b' ! nat (stride im * y + x) = buf im ! nat (stride im * y + x)"
    if "0 \<le> y" "y < height im" "width im \<le> x" "x < stride im" for y x
  proof -
    have x0: "0 \<le> x" using that w0 by simp
    have r: "0 \<le> stride im * y + x" "stride im * y + x < int (length (buf im))"
      using idx_in_range [OF x0 that(4) that(1,2)] len by simp_all
    have "\<not> halved im (height im) 0 (stride im * y + x)"
      using idx_div_mod [OF x0 that(4), of y] that by (simp add: halved_def)
    then show ?thesis using fin r by (simp add: darken_inv_def)
  qed
  show ?thesis using res lb pix pad by simp
qed

theorem darken_halves_pixels_only_witness:
  "valid_image im_2x2 \<and>
   (\<exists>im'. image_u8_darken im_2x2 = Inr im' \<and> stride im' = 3 \<and> length (buf im') = 6 \<and>
      buf im' ! 3 = 127 \<and> buf im' ! 4 = 0 \<and> buf im' ! 5 = 98)"
proof -
  have v: "valid_image im_2x2" by (simp add: valid_image_def im_2x2_def)
  from darken_halves_pixels_only [OF v] obtain im' where
    r: "image_u8_darken im_2x2 = Inr im'" "stride im' = stride im_2x2"
       "length (buf im') = length (buf im_2x2)"
    and pix: "\<And>y x. 0 \<le> y \<and> y < height im_2x2 \<and> 0 \<le> x \<and> x < width im_2x2 \<Longrightarrow>
                  buf im' ! nat (stride im_2x2 * y + x) = buf im_2x2 ! nat (stride im_2x2 * y + x) div 2"
    and pad: "\<And>y x. 0 \<le> y \<and> y < height im_2x2 \<and> width im_2x2 \<le> x \<and> x < stride im_2x2 \<Longrightarrow>
                  buf im' ! nat (stride im_2x2 * y + x) = buf im_2x2 ! nat (stride im_2x2 * y + x)"
    by blast
  have "buf im' ! 3 = 127" using pix [of 1 0] by (simp add: im_2x2_def)
  moreover have "buf im' ! 4 = 0" using pix [of 1 1] by (simp add: im_2x2_def)
  moreover have "buf im' ! 5 = 98" using pad [of 1 2] by (simp add: im_2x2_def)
  ultimately show ?thesis using v r by (auto simp: im_2x2_def)
qed

lemma darken_example:
  "image_u8_darken im_2x2 = Inr (im_2x2 \<lparr> buf := [5, 10, 99, 127, 0, 98] \<rparr>)"
  by (simp add: image_u8_darken_def im_2x2_def for_loop.simps rd_def wr_def)

section \<open>Writing a PNM file\<close>























section \<open>Drawing lines and circles\<close>

lemmas evl = image_u8_draw_line_def draw_line_plot_def uniform_image_def wr_def Let_def

text \<open>
  Claim C6 fails for \<open>image_u8_draw_line\<close> with a width above 1.  Only the nearest pixel
  is tested against the bounds; the three further bytes are written unchecked.  On a
  2 x 2 Buffer the walk from \<open>(0, 0)\<close> to \<open>(1, 1)\<close> starts at \<open>(1, 1)\<close>, the byte 3, and
  writes the bytes 4, 5 and 6 of an array of 4.
\<close>

theorem draw_line_thick_leaves_array:
  "image_u8_draw_line (uniform_image 2 2 2 0) [(1, 1)] 255 2 = Inl OutOfBounds"
  by (simp add: evl)

text \<open>
  Claim C7 as stated fails: a step at \<open>(0, 0)\<close> on a 3 x 3 Buffer of zeros also sets the
  pixel \<open>(1, 1)\<close>, the byte 4, which is neither the right nor the below neighbour.
\<close>

theorem draw_line_thick_diagonal_counterexample:
  "image_u8_draw_line (uniform_image 3 3 3 0) [(0, 0)] 255 2 =
     Inr \<lparr> width = 3, height = 3, stride = 3, buf = [255, 255, 0, 255, 255, 0, 0, 0, 0] \<rparr>"
  by (simp add: evl numeral_eq_Suc)

text \<open>
  Claim C7, amended.  With a width above 1, a step whose nearest pixel \<open>(x, y)\<close> has a
  right and a below neighbour inside the image sets exactly four pixels to the value:
  \<open>(x, y)\<close>, \<open>(x + 1, y)\<close>, \<open>(x, y + 1)\<close> and \<open>(x + 1, y + 1)\<close>; every other byte of the
  array is as before.
\<close>

theorem draw_line_thick_step:
  assumes v: "valid_image im" and lb: "length b = length (buf im)" and th: "1 < lwidth"
    and x: "0 \<le> x" "x + 1 < width im" and y: "0 \<le> y" "y + 1 < height im"
  shows "\<exists>b'. draw_line_plot im val lwidth x y b = Inr b' \<and> length b' = length b \<and>
           (\<forall>py px. 0 \<le> py \<and> py < height im \<and> 0 \<le> px \<and> px < stride im \<longrightarrow>
              b' ! nat (py * stride im + px) =
                (if (px, py) \<in> {(x, y), (x + 1, y), (x, y + 1), (x + 1, y + 1)}
                 then word_of_int val else b ! nat (py * stride im + px)))"
proof -
  define s where "s = stride im"
  define idx where "idx = y * s + x"
  have len: "int (length b) = s * height im" and ws: "width im \<le> s"
    using v lb by (simp_all add: valid_image_def s_def)
  have xs: "x + 1 < s" using x ws by simp
  have r: "0 \<le> p * s + q \<and> p * s + q < int (length b)"
    if "0 \<le> p" "p < height im" "0 \<le> q" "q < s" for p q
    using idx_in_range [OF that(3,4,1,2)] len by (simp add: mult.commute)
  have r0: "0 \<le> idx" "idx < int (length b)" using r [of y x] x y xs by (simp_all add: idx_def)
  have r1: "0 \<le> idx + 1" "idx + 1 < int (length b)"
    using r [of y "x + 1"] x y xs by (simp_all add: idx_def)
  have r2: "0 \<le> idx + s" "idx + s < int (length b)"
    using r [of "y + 1" x] x y xs by (simp_all add: idx_def algebra_simps)
  have r3: "0 \<le> idx + 1 + s" "idx + 1 + s < int (length b)"
    using r [of "y + 1" "x + 1"] x y xs by (simp_all add: idx_def algebra_simps)
  have q1: "idx + 1 = y * s + (x + 1)" and q2: "idx + s = (y + 1) * s + x"
    and q3: "idx + 1 + s = (y + 1) * s + (x + 1)"
    by (simp_all add: idx_def algebra_simps)
  let ?w = "word_of_int val :: uint8"
  let ?b' = "b[nat idx := ?w, nat (idx + 1) := ?w, nat (idx + s) := ?w, nat (idx + 1 + s) := ?w]"
  have run: "draw_line_plot im val lwidth x y b = Inr ?b'"
    using x y th r0 r1 r2 r3 ws
    by (simp add: draw_line_plot_def Let_def s_def [symmetric] idx_def [symmetric])
  have px: "?b' ! nat (py * s + px) =
              (if (px, py) \<in> {(x, y), (x + 1, y), (x, y + 1), (x + 1, y + 1)}
               then ?w else b ! nat (py * s + px))"
    if p: "0 \<le> py" "py < height im" "0 \<le> px" "px < s" for py px
  proof -
    have k: "0 \<le> py * s + px" "py * s + px < int (length b)" using r [OF p] by simp_all
    have n: "nat (py * s + px) = nat j \<longleftrightarrow> py * s + px = j" if "0 \<le> j" for j
      using k that by (simp add: nat_eq_iff)
    have e: "nat (py * s + px) = nat j \<longleftrightarrow> py = c \<and> px = a"
      if "j = c * s + a" "0 \<le> a" "a < s" "0 \<le> j" for j a c
      using n [OF that(4)] idx_inj [OF that(2,3) p(3,4), of py c] that(1) by simp
    have e0: "nat (py * s + px) = nat idx \<longleftrightarrow> py = y \<and> px = x"
      by (rule e) (use x xs r0 in \<open>auto simp: idx_def\<close>)
    have e1: "nat (py * s + px) = nat (idx + 1) \<longleftrightarrow> py = y \<and> px = x + 1"
      by (rule e [OF q1]) (use x xs r1 in auto)
    have e2: "nat (py * s + px) = nat (idx + s) \<longleftrightarrow> py = y + 1 \<and> px = x"
      by (rule e [OF q2]) (use x xs r2 in auto)
    have e3: "nat (py * s + px) = nat (idx + 1 + s) \<longleftrightarrow> py = y + 1 \<and> px = x + 1"
      by (rule e [OF q3]) (use x xs r3 in auto)
    have kl: "nat (py * s + px) < length b" using k by simp
    have "?b' ! nat (py * s + px) =
            (if nat (py * s + px) = nat (idx + 1 + s) \<or> nat (py * s + px) = nat (idx + s) \<or>
                nat (py * s + px) = nat (idx + 1) \<or> nat (py * s + px) = nat idx
             then ?w else b ! nat (py * s + px))"
      by (rule nth_update4 [OF kl])
    also have "\<dots> = (if (px, py) \<in> {(x, y), (x + 1, y), (x, y + 1), (x + 1, y + 1)}
                      then ?w else b ! nat (py * s + px))"
      unfolding e0 e1 e2 e3 by (rule if_cong) auto
    finally show ?thesis .
  qed
  show ?thesis using run px by (simp add: s_def)
qed


theorem draw_line_thick_step_witness:
  "valid_image (uniform_image 3 3 3 0) \<and> (1 :: int) < 2 \<and>
   (\<exists>b'. draw_line_plot (uniform_image 3 3 3 0) 255 2 0 0 (buf (uniform_image 3 3 3 0)) = Inr b' \<and>
      length b' = 9 \<and> b' ! 0 = 255 \<and> b' ! 1 = 255 \<and> b' ! 3 = 255 \<and> b' ! 4 = 255 \<and> b' ! 2 = 0)"
proof -
  let ?im = "uniform_image 3 3 3 0"
  have v: "valid_image ?im" by (simp add: valid_image_def uniform_image_def)
  have f: "width ?im = 3" "height ?im = 3" "stride ?im = 3" "buf ?im = replicate 9 0"
    by (simp_all add: uniform_image_def)
  from draw_line_thick_step [OF v refl, of 2 0 0 255]
  obtain b' where r: "draw_line_plot ?im 255 2 0 0 (buf ?im) = Inr b'" "length b' = length (buf ?im)"
    and c: "\<And>py px. 0 \<le> py \<and> py < height ?im \<and> 0 \<le> px \<and> px < stride ?im \<Longrightarrow>
              b' ! nat (py * stride ?im + px) =
                (if (px, py) \<in> {(0, 0), (0 + 1, 0), (0, 0 + 1), (0 + 1, 0 + 1)}
                 then word_of_int 255 else buf ?im ! nat (py * stride ?im + px))"
    unfolding f by auto
  have "b' ! 0 = 255" using c [of 0 0] by (simp add: f)
  moreover have "b' ! 1 = 255" using c [of 0 1] by (simp add: f)
  moreover have "b' ! 3 = 255" using c [of 1 0] by (simp add: f)
  moreover have "b' ! 4 = 255" using c [of 1 1] by (simp add: f)
  moreover have "b' ! 2 = 0" using c [of 0 2] by (simp add: f)
  ultimately show ?thesis using v r by (simp add: f)
qed

text \<open>
  The other cases do clip: \<open>image_u8_draw_circle\<close>, whatever the bounds of its scan
  and its distance test, and \<open>image_u8_draw_line\<close> with a width of at most 1, whatever
  the points of its walk, return and write inside the array only.
\<close>

lemma draw_circle_clips:
  assumes v: "valid_image im"
  shows "\<exists>b'. image_u8_draw_circle im ylo yhi xlo xhi far val = Inr (im\<lparr>buf := b'\<rparr>) \<and>
              length b' = length (buf im)"
proof -
  let ?P = "\<lambda>t :: uint8 list. length t = length (buf im)"
  let ?px = "\<lambda>y x b. if far x y then Inr b
              else if x \<ge> 0 \<and> x < width im \<and> y \<ge> 0 \<and> y < height im
                   then wr b (y * stride im + x) (word_of_int val)
                   else Inr b"
  have len: "int (length (buf im)) = stride im * height im" and ws: "width im \<le> stride im"
    using v by (simp_all add: valid_image_def)
  have px: "\<exists>t'. ?px y x t = Inr t' \<and> ?P t'" if "?P t" for y x t
  proof (cases "\<not> far x y \<and> x \<ge> 0 \<and> x < width im \<and> y \<ge> 0 \<and> y < height im")
    case True
    then have "0 \<le> stride im * y + x" "stride im * y + x < int (length t)"
      using idx_in_range [of x "stride im" y "height im"] ws len that by simp_all
    then show ?thesis using True that by (simp add: mult.commute)
  next
    case False
    then show ?thesis using that by auto
  qed
  have "\<exists>b'. for_loop ylo (yhi + 1) (\<lambda>y. for_loop xlo (xhi + 1) (?px y)) (buf im) = Inr b' \<and> ?P b'"
  proof (rule for_loop_preserves [where P = ?P])
    show "?P (buf im)" by simp
    fix y t assume "?P t"
    then show "\<exists>t'. for_loop xlo (xhi + 1) (?px y) t = Inr t' \<and> ?P t'"
      by (rule for_loop_preserves [where P = ?P]) (rule px)
  qed
  then show ?thesis by (auto simp: image_u8_draw_circle_def)
qed

lemma draw_line_thin_clips:
  assumes v: "valid_image im" and th: "lwidth \<le> 1" and lb: "length b = length (buf im)"
  shows "\<exists>b'. draw_line_walk im val lwidth pts b = Inr b' \<and> length b' = length (buf im)"
  using lb
proof (induction pts arbitrary: b)
  case Nil
  then show ?case by simp
next
  case (Cons p pts)
  obtain x y where p: "p = (x, y)" by (cases p)
  have len: "int (length (buf im)) = stride im * height im" and ws: "width im \<le> stride im"
    using v by (simp_all add: valid_image_def)
  have "\<exists>b1. draw_line_plot im val lwidth x y b = Inr b1 \<and> length b1 = length (buf im)"
  proof (cases "x < 0 \<or> y < 0 \<or> x \<ge> width im \<or> y \<ge> height im")
    case True
    then show ?thesis using Cons.prems by (auto simp: draw_line_plot_def)
  next
    case False
    then have "0 \<le> stride im * y + x" "stride im * y + x < int (length b)"
      using idx_in_range [of x "stride im" y "height im"] ws len Cons.prems by simp_all
    then show ?thesis using False th Cons.prems by (simp add: draw_line_plot_def Let_def mult.commute)
  qed
  then obtain b1 where "draw_line_plot im val lwidth x y b = Inr b1" "length b1 = length (buf im)"
    by blast
  then show ?case using Cons.IH [of b1] by (simp add: p)
qed

section \<open>The maximum-composite line fill\<close>









lemma fill_line_max_example:
  "image_u8_fill_line_max im_2x2 lut3 (- 5) 7 0 9 idx_2x2 =
     Inr (im_2x2\<lparr>buf := [200, 100, 99, 255, 0, 98]\<rparr>)"
  by (simp add: image_u8_fill_line_max_def fill_pixel_def iclamp_def im_2x2_def lut3_def
      idx_2x2_def for_loop.simps rd_def wr_def Let_def)

section \<open>Rotation by the angle 0\<close>

lemma round_half_even_of_int [simp]: "round_half_even (of_int m) = m"
  by (simp add: round_half_even_def)

lemma floor_log2_iff:
  assumes "0 < x"
  shows "\<lfloor>log 2 x\<rfloor> = e \<longleftrightarrow> 2 powi e \<le> x \<and> x < 2 powi (e + 1)"
proof -
  have p: "2 powr real_of_int e = (2 :: real) powi e"
    "2 powr real_of_int (e + 1) = (2 :: real) powi (e + 1)"
    by (rule powr_real_of_int'; simp)+
  have "\<lfloor>log 2 x\<rfloor> = e \<longleftrightarrow> 2 powr real_of_int e \<le> x \<and> x < 2 powr real_of_int (e + 1)"
    by (rule floor_log_eq_powr_iff) (use assms in auto)
  then show ?thesis unfolding p .
qed

lemma binary32_at_exponent:
  assumes "2 powi e \<le> \<bar>x\<bar>" "\<bar>x\<bar> < 2 powi (e + 1)"
  shows "binary32 x = of_int (round_half_even (x * 2 powi (23 - e))) * 2 powi (e - 23)"
proof -
  have "0 < (2 :: real) powi e" by simp
  then have x0: "0 < \<bar>x\<bar>" using assms(1) by linarith
  have "\<lfloor>log 2 \<bar>x\<bar>\<rfloor> = e"
    using assms floor_log2_iff [OF x0] by blast
  then show ?thesis using x0 by (simp add: binary32_def)
qed

lemma binary32_exact:
  assumes b: "\<bar>of_int k / 2 :: real\<bar> \<le> 2 ^ 23"
  shows "binary32 (of_int k / 2) = of_int k / 2"
proof (cases "k = 0")
  case True
  then show ?thesis by (simp add: binary32_def)
next
  case False
  define x :: real where "x = of_int k / 2"
  have x0: "0 < \<bar>x\<bar>" using False by (simp add: x_def)
  define e where "e = \<lfloor>log 2 \<bar>x\<bar>\<rfloor>"
  have e: "2 powi e \<le> \<bar>x\<bar>" "\<bar>x\<bar> < 2 powi (e + 1)"
    using floor_log2_iff [OF x0, of e] by (simp_all add: e_def)
  have half: "1 / 2 \<le> \<bar>x\<bar>"
  proof -
    have "1 \<le> \<bar>k\<bar>" using False by simp
    then have "1 \<le> \<bar>of_int k :: real\<bar>" by (metis of_int_1_le_iff of_int_abs)
    then show ?thesis by (simp add: x_def)
  qed
  have lo: "- 1 \<le> e"
  proof (rule ccontr)
    assume "\<not> - 1 \<le> e"
    then have "e + 1 \<le> - 1" by simp
    then have "(2 :: real) powi (e + 1) \<le> 2 powi (- 1)" by (intro power_int_increasing) auto
    then show False using e(2) half by (simp add: power_int_minus)
  qed
  have hi: "e \<le> 23"
  proof (rule ccontr)
    assume "\<not> e \<le> 23"
    then have "24 \<le> e" by simp
    then have "(2 :: real) powi 24 \<le> 2 powi e" by (intro power_int_increasing) auto
    then show False using e(1) b by (simp add: x_def)
  qed
  have "\<exists>m. x * 2 powi (23 - e) = of_int m"
  proof (cases "e = 23")
    case True
    then have "\<bar>x\<bar> = 2 ^ 23" using e(1) b by (simp add: x_def)
    then have "x = of_int (2 ^ 23) \<or> x = of_int (- (2 ^ 23))" by (simp add: abs_if split: if_splits)
    then have "\<exists>m. x = of_int m" by blast
    then show ?thesis using True by simp
  next
    case False
    define n where "n = nat (22 - e)"
    have n: "23 - e = int (Suc n)" using hi False by (simp add: n_def)
    have "(2 :: real) powi int (Suc n) = 2 ^ Suc n" by (rule power_int_of_nat)
    then have "x * 2 powi (23 - e) = of_int (k * 2 ^ n)"
      unfolding n by (simp add: x_def)
    then show ?thesis by blast
  qed
  then obtain m where m: "x * 2 powi (23 - e) = of_int m" by blast
  have "binary32 x = of_int m * 2 powi (e - 23)"
    using binary32_at_exponent [OF e] m by simp
  also have "\<dots> = x * (2 powi (23 - e) * 2 powi (e - 23))" using m by simp
  also have "2 powi (23 - e) * (2 :: real) powi (e - 23) = 1"
    by (simp add: power_int_add [symmetric])
  finally show ?thesis by (simp add: x_def)
qed

lemma binary32_tie_wide: "binary32 16777217 = 16777216"
proof -
  have "binary32 16777217 = of_int (round_half_even (16777217 * 2 powi (23 - 24))) * 2 powi (24 - 23)"
    by (rule binary32_at_exponent) simp_all
  moreover have "round_half_even (16777217 / 2) = 8388608"
  proof -
    have "\<lfloor>16777217 / 2 :: real\<rfloor> = 8388608" by (simp add: floor_eq_iff)
    then show ?thesis by (simp add: round_half_even_def Let_def)
  qed
  ultimately show ?thesis by (simp add: power_int_minus)
qed

lemma binary32_tie_half: "binary32 (16777217 / 2) = 8388608"
proof -
  have "binary32 (16777217 / 2) = of_int (round_half_even (16777217 / 2 * 2 powi (23 - 23))) * 2 powi (23 - 23)"
    by (rule binary32_at_exponent) simp_all
  moreover have "round_half_even (16777217 / 2) = 8388608"
  proof -
    have "\<lfloor>16777217 / 2 :: real\<rfloor> = 8388608" by (simp add: floor_eq_iff)
    then show ?thesis by (simp add: round_half_even_def Let_def)
  qed
  ultimately show ?thesis by simp
qed

lemma binary32_2p24: "binary32 16777216 = 16777216"
proof -
  have "binary32 16777216 = of_int (round_half_even (16777216 * 2 powi (23 - 24))) * 2 powi (24 - 23)"
    by (rule binary32_at_exponent) simp_all
  moreover have "(16777216 :: real) * 2 powi (23 - 24) = of_int 8388608" by (simp add: power_int_minus)
  ultimately show ?thesis by (simp only: round_half_even_of_int) simp
qed

lemma binary32_0 [simp]: "binary32 0 = 0"
  by (simp add: binary32_def)

lemma binary32_int: "\<bar>k\<bar> \<le> 2 ^ 23 \<Longrightarrow> binary32 (of_int k) = of_int k"
proof -
  assume "\<bar>k\<bar> \<le> 2 ^ 23"
  then have "\<bar>of_int k :: real\<bar> \<le> 2 ^ 23" by (metis of_int_abs of_int_le_numeral_power_cancel_iff)
  then have "binary32 (of_int (2 * k) / 2) = of_int (2 * k) / 2"
    by (intro binary32_exact) simp
  then show ?thesis by simp
qed

lemma binary32_half: "\<bar>k\<bar> \<le> 2 ^ 24 \<Longrightarrow> binary32 (of_int k / 2) = of_int k / 2"
proof -
  assume "\<bar>k\<bar> \<le> 2 ^ 24"
  then have "\<bar>of_int k :: real\<bar> \<le> 2 ^ 24" by (metis of_int_abs of_int_le_numeral_power_cancel_iff)
  then show ?thesis by (intro binary32_exact) simp
qed

lemma rotate_size_zero:
  assumes w: "0 \<le> width im" "width im \<le> 2 ^ 23" and h: "0 \<le> height im" "height im \<le> 2 ^ 23"
  shows "rotate_size im 1 0 = (width im, height im)"
proof -
  define W H :: real where "W = of_int (width im)" and "H = of_int (height im)"
  have W: "0 \<le> W" "W \<le> 8388608" and H: "0 \<le> H" "H \<le> 8388608"
    using w h by (simp_all add: W_def H_def)
  have bw: "binary32 W = W" "binary32 (W / 2) = W / 2" "binary32 (- (W / 2)) = - (W / 2)"
    using binary32_int [of "width im"] binary32_half [of "width im"] binary32_half [of "- width im"] w
    by (simp_all add: W_def)
  have bh: "binary32 H = H" "binary32 (H / 2) = H / 2" "binary32 (- (H / 2)) = - (H / 2)"
    using binary32_int [of "height im"] binary32_half [of "height im"] binary32_half [of "- height im"] h
    by (simp_all add: H_def)
  have c: "rotate_corner 1 0 (W / 2) (H / 2) (0, 0) acc =
             (case acc of (xmin, xmax, ymin, ymax) \<Rightarrow>
                (min xmin (- (W / 2)), max xmax (- (W / 2)), min ymin (- (H / 2)), max ymax (- (H / 2))))"
    "rotate_corner 1 0 (W / 2) (H / 2) (W, 0) acc =
             (case acc of (xmin, xmax, ymin, ymax) \<Rightarrow>
                (min xmin (W / 2), max xmax (W / 2), min ymin (- (H / 2)), max ymax (- (H / 2))))"
    "rotate_corner 1 0 (W / 2) (H / 2) (W, H) acc =
             (case acc of (xmin, xmax, ymin, ymax) \<Rightarrow>
                (min xmin (W / 2), max xmax (W / 2), min ymin (H / 2), max ymax (H / 2)))"
    "rotate_corner 1 0 (W / 2) (H / 2) (0, H) acc =
             (case acc of (xmin, xmax, ymin, ymax) \<Rightarrow>
                (min xmin (- (W / 2)), max xmax (- (W / 2)), min ymin (H / 2), max ymax (H / 2)))"
    for acc
    by (simp_all add: rotate_corner_def Let_def bw bh split: prod.splits)
  have "fold (rotate_corner 1 0 (W / 2) (H / 2)) [(0, 0), (W, 0), (W, H), (0, H)]
          (2139095040, - 2139095040, 2139095040, - 2139095040) = (- (W / 2), W / 2, - (H / 2), H / 2)"
    using W H by (simp add: c min_def max_def)
  then show ?thesis
    by (simp add: rotate_size_def Let_def W_def [symmetric] H_def [symmetric] bw bh)
      (simp add: W_def H_def)
qed

lemma rotate_pixel_zero:
  assumes w: "width im \<le> 2 ^ 23" and h: "height im \<le> 2 ^ 23"
    and x: "0 \<le> ox" "ox < width im" and y: "0 \<le> oy" "oy < height im"
  shows "rotate_pixel im out 1 0 pad (width im) (height im) oy ox b =
           bindE (rd (buf im) (oy * stride im + ox)) (\<lambda>p. wr b (oy * stride out + ox) p)"
proof -
  have half: "binary32 (of_int a - of_int n / 2 + 1 / 2) = of_int a - of_int n / 2 + 1 / 2"
    "\<lfloor>binary32 (of_int a - of_int n / 2 + 1 / 2 + of_int n / 2)\<rfloor> = a"
    if "0 \<le> a" "a < n" "n \<le> 2 ^ 23" for a n :: int
  proof -
    have e: "of_int a - of_int n / 2 + 1 / 2 = (of_int (2 * a - n + 1) / 2 :: real)"
      by (simp add: field_simps)
    show "binary32 (of_int a - of_int n / 2 + 1 / 2) = of_int a - of_int n / 2 + 1 / 2"
      unfolding e by (rule binary32_half) (use that in auto)
    have e': "of_int a - of_int n / 2 + 1 / 2 + of_int n / 2 = (of_int (2 * a + 1) / 2 :: real)"
      by (simp add: field_simps)
    have b: "binary32 (of_int (2 * a + 1) / 2) = of_int (2 * a + 1) / 2"
      by (rule binary32_half) (use that in auto)
    have f: "\<lfloor>of_int (2 * a + 1) / 2 :: real\<rfloor> = a"
      by (simp add: floor_eq_iff field_simps)
    show "\<lfloor>binary32 (of_int a - of_int n / 2 + 1 / 2 + of_int n / 2)\<rfloor> = a"
      unfolding e' b by (rule f)
  qed
  have ic: "binary32 (of_int (width im) / 2) = of_int (width im) / 2"
    "binary32 (of_int (height im) / 2) = of_int (height im) / 2"
    by (rule binary32_half, use w h x y in simp)+
  let ?sx = "of_int ox - of_int (width im) / 2 + 1 / 2 :: real"
  let ?sy = "of_int oy - of_int (height im) / 2 + 1 / 2 :: real"
  have sx: "binary32 ?sx = ?sx" and sy: "binary32 ?sy = ?sy"
    using half(1) [OF x w] half(1) [OF y h] by simp_all
  have fx: "\<lfloor>binary32 (binary32 (binary32 (?sx * 1) + binary32 (?sy * 0)) + of_int (width im) / 2)\<rfloor> = ox"
    using half(2) [OF x w] by (simp add: sx)
  have fy: "\<lfloor>binary32 (binary32 (binary32 (- ?sx * 0) + binary32 (?sy * 1)) + of_int (height im) / 2)\<rfloor> = oy"
    using half(2) [OF y h] by (simp add: sy)
  show ?thesis
    unfolding rotate_pixel_def Let_def ic sx sy fx fy using x y by simp
qed

lemma rotate_row_zero:
  assumes v: "valid_image im" and w: "width im \<le> 2 ^ 23" and h: "height im \<le> 2 ^ 23"
    and S: "width im \<le> S" "stride out = S"
    and y: "0 \<le> y" "y < height im" and inv: "rot_inv im S y 0 t"
  shows "\<exists>t'. for_loop 0 (width im) (rotate_pixel im out 1 0 pad (width im) (height im) y) t = Inr t' \<and>
              rot_inv im S (y + 1) 0 t'"
proof -
  have len: "int (length (buf im)) = stride im * height im" and w0: "0 \<le> width im"
    and ws: "width im \<le> stride im"
    using v by (simp_all add: valid_image_def)
  have "\<exists>t'. for_loop 0 (width im) (rotate_pixel im out 1 0 pad (width im) (height im) y) t = Inr t' \<and>
              rot_inv im S y (width im) t'"
  proof (rule for_loop_rule [where I = "rot_inv im S y"])
    show "rot_inv im S y 0 t" by (rule inv)
    show "0 \<le> width im" by (rule w0)
    fix x u assume x: "0 \<le> x" "x < width im" and u: "rot_inv im S y x u"
    have lu: "int (length u) = S * height im" using u by (simp add: rot_inv_def)
    have src: "0 \<le> y * stride im + x" "y * stride im + x < int (length (buf im))"
      using idx_in_range [of x "stride im" y "height im"] x y ws len by (simp_all add: mult.commute)
    have dst: "0 \<le> y * S + x" "y * S + x < int (length u)"
      using idx_in_range [of x S y "height im"] x y S(1) lu by (simp_all add: mult.commute)
    let ?u' = "u[nat (y * S + x) := buf im ! nat (y * stride im + x)]"
    have run: "rotate_pixel im out 1 0 pad (width im) (height im) y x u = Inr ?u'"
      using rotate_pixel_zero [OF w h x y, of out pad u] src dst S(2) by simp
    have "rot_inv im S y (x + 1) ?u'"
      unfolding rot_inv_def
    proof (intro conjI allI impI)
      show "int (length ?u') = S * height im" using lu by simp
      fix r c
      assume rc: "0 \<le> r \<and> r < height im \<and> 0 \<le> c \<and> c < width im \<and> (r < y \<or> (r = y \<and> c < x + 1))"
      have k: "0 \<le> r * S + c" "r * S + c < int (length u)"
        using idx_in_range [of c S r "height im"] rc S(1) lu by (simp_all add: mult.commute)
      have e: "nat (r * S + c) = nat (y * S + x) \<longleftrightarrow> r = y \<and> c = x"
      proof -
        have "nat (r * S + c) = nat (y * S + x) \<longleftrightarrow> r * S + c = y * S + x"
          using k dst by (simp add: nat_eq_iff)
        also have "\<dots> \<longleftrightarrow> r = y \<and> c = x" by (rule idx_inj) (use x rc S(1) in auto)
        finally show ?thesis .
      qed
      show "?u' ! nat (r * S + c) = buf im ! nat (r * stride im + c)"
      proof (cases "r = y \<and> c = x")
        case True
        then show ?thesis using dst by simp
      next
        case False
        then have "nat (r * S + c) \<noteq> nat (y * S + x)" using e by simp
        moreover have "r < y \<or> (r = y \<and> c < x)" using rc False by auto
        ultimately show ?thesis using u rc by (simp add: rot_inv_def)
      qed
    qed
    then show "\<exists>t'. rotate_pixel im out 1 0 pad (width im) (height im) y x u = Inr t' \<and>
                    rot_inv im S y (x + 1) t'"
      using run by simp
  qed
  moreover have "rot_inv im S (y + 1) 0 t'" if t': "rot_inv im S y (width im) t'" for t'
    unfolding rot_inv_def
  proof (intro conjI allI impI)
    show "int (length t') = S * height im" using t' by (simp add: rot_inv_def)
    fix r c
    assume rc: "0 \<le> r \<and> r < height im \<and> 0 \<le> c \<and> c < width im \<and> (r < y + 1 \<or> (r = y + 1 \<and> c < 0))"
    then have "r < y \<or> (r = y \<and> c < width im)" by auto
    then show "t' ! nat (r * S + c) = buf im ! nat (r * stride im + c)"
      using t' rc by (simp add: rot_inv_def)
  qed
  ultimately show ?thesis by blast
qed

text \<open>
  Claim C9, amended.  For a Buffer that satisfies the invariant, whose width and height
  are at most \<open>2\<^sup>2\<^sup>3\<close> and whose output (of stride the width rounded up to 96) has fewer
  than \<open>2\<^sup>3\<^sup>1\<close> bytes, the rotation by the angle 0 returns a Buffer of the same width and
  height whose pixels are those of the input.
\<close>

theorem rotate_zero_is_identity:
  assumes v: "valid_image im" and w: "width im \<le> 2 ^ 23" and h: "height im \<le> 2 ^ 23"
    and fit: "int (round_up (nat (width im)) 96) * height im < 2 ^ 31"
  shows "\<exists>out. image_u8_rotate im 0 pad = Inr out \<and>
           width out = width im \<and> height out = height im \<and>
           stride out = int (round_up (nat (width im)) 96) \<and>
           (\<forall>y x. 0 \<le> y \<and> y < height im \<and> 0 \<le> x \<and> x < width im \<longrightarrow>
              buf out ! nat (y * stride out + x) = buf im ! nat (y * stride im + x))"
proof -
  have w0: "0 \<le> width im" and h0: "0 \<le> height im" using v by (simp_all add: valid_image_def)
  define S where "S = round_up (nat (width im)) 96"
  define out where "out = \<lparr> width = width im, height = height im, stride = int S,
                           buf = replicate (S * nat (height im)) 0 \<rparr>"
  have c1: "binary32 1 = 1" using binary32_int [of 1] by simp
  have sz: "rotate_size im 1 0 = (width im, height im)"
    by (rule rotate_size_zero [OF w0 w h0 h])
  have uw: "unat (word_of_int (width im) :: 32 word) = nat (width im)"
    and uh: "unat (word_of_int (height im) :: 32 word) = nat (height im)"
    using w0 w h0 h by (simp_all add: unat_eq_nat_uint uint_word_of_int take_bit_eq_mod)
  have wS: "nat (width im) \<le> S" unfolding S_def by (rule round_up_least(2)) simp
  have S96: "S \<le> nat (width im) + 95"
    unfolding S_def by (simp add: round_up_if) arith
  have cr: "image_u8_create (word_of_int (width im)) (word_of_int (height im)) = Inr out"
  proof -
    have "image_u8_create_alignment (word_of_int (width im)) (word_of_int (height im)) 96 =
            Inr \<lparr> width = int (unat (word_of_int (width im) :: 32 word)),
                  height = int (unat (word_of_int (height im) :: 32 word)),
                  stride = int (round_up (unat (word_of_int (width im) :: 32 word)) (unat (96 :: 32 word))),
                  buf = replicate (round_up (unat (word_of_int (width im) :: 32 word)) (unat (96 :: 32 word)) *
                                   unat (word_of_int (height im) :: 32 word)) 0 \<rparr>"
    proof (rule create_alignment_fits)
      show "(96 :: 32 word) \<noteq> 0" by simp
      show "round_up (unat (word_of_int (width im) :: 32 word)) (unat (96 :: 32 word)) < 2 ^ 31"
        using S96 w w0 by (simp add: uw S_def)
      show "unat (word_of_int (height im) :: 32 word) < 2 ^ 31" using h h0 by (simp add: uh)
      have "int (S * nat (height im)) < 2 ^ 31" using fit h0 by (simp add: S_def)
      then have "S * nat (height im) < 2 ^ 31" by (simp add: of_nat_less_numeral_power_cancel_iff [symmetric] del: of_nat_mult)
      then show "round_up (unat (word_of_int (width im) :: 32 word)) (unat (96 :: 32 word)) *
            unat (word_of_int (height im) :: 32 word) < 2 ^ 32"
        by (simp add: uw uh S_def)
    qed
    then show ?thesis
      using w0 h0 by (simp add: image_u8_create_def DEFAULT_ALIGNMENT_U8_def uw uh out_def S_def)
  qed
  have Sw: "width im \<le> int S" using wS w0 by simp
  have "\<exists>b. for_loop 0 (height im) (\<lambda>oy. for_loop 0 (width im)
               (rotate_pixel im out 1 0 pad (width im) (height im) oy)) (buf out) = Inr b \<and>
             rot_inv im (int S) (height im) 0 b"
  proof (rule for_loop_rule [where I = "\<lambda>y. rot_inv im (int S) y 0"])
    have "int (S * nat (height im)) = int S * height im" using h0 by simp
    then show "rot_inv im (int S) 0 0 (buf out)"
      unfolding rot_inv_def out_def by auto
    show "0 \<le> height im" by (rule h0)
    fix y t assume "0 \<le> y" "y < height im" "rot_inv im (int S) y 0 t"
    then show "\<exists>t'. for_loop 0 (width im) (rotate_pixel im out 1 0 pad (width im) (height im) y) t = Inr t' \<and>
                    rot_inv im (int S) (y + 1) 0 t'"
      by (intro rotate_row_zero [OF v w h Sw]) (simp_all add: out_def)
  qed
  then obtain b where run: "for_loop 0 (height im) (\<lambda>oy. for_loop 0 (width im)
               (rotate_pixel im out 1 0 pad (width im) (height im) oy)) (buf out) = Inr b"
    and fin: "rot_inv im (int S) (height im) 0 b" by blast
  have res: "image_u8_rotate im 0 pad = Inr (out\<lparr>buf := b\<rparr>)"
    by (simp add: image_u8_rotate_def c1 sz cr run)
  have "b ! nat (y * int S + x) = buf im ! nat (y * stride im + x)"
    if "0 \<le> y" "y < height im" "0 \<le> x" "x < width im" for y x
    using fin that by (simp add: rot_inv_def)
  then show ?thesis using res by (simp add: out_def S_def)
qed

theorem rotate_zero_is_identity_witness:
  "valid_image im_2x2 \<and> width im_2x2 \<le> 2 ^ 23 \<and> height im_2x2 \<le> 2 ^ 23 \<and>
   int (round_up (nat (width im_2x2)) 96) * height im_2x2 < 2 ^ 31 \<and>
   (\<exists>out. image_u8_rotate im_2x2 0 7 = Inr out \<and> width out = 2 \<and> height out = 2 \<and>
      stride out = 96 \<and>
      buf out ! 0 = 10 \<and> buf out ! 1 = 21 \<and> buf out ! 96 = 255 \<and> buf out ! 97 = 0)"
proof -
  have v: "valid_image im_2x2" by (simp add: valid_image_def im_2x2_def)
  have r: "round_up (nat (width im_2x2)) 96 = 96" by (simp add: round_up_def im_2x2_def)
  have b: "width im_2x2 \<le> 2 ^ 23" "height im_2x2 \<le> 2 ^ 23"
    "int (round_up (nat (width im_2x2)) 96) * height im_2x2 < 2 ^ 31"
    unfolding r by (simp_all add: im_2x2_def)
  from rotate_zero_is_identity [OF v b, of 7]
  obtain out where o: "image_u8_rotate im_2x2 0 7 = Inr out" "width out = width im_2x2"
      "height out = height im_2x2" "stride out = 96"
    and px: "\<And>y x. 0 \<le> y \<and> y < height im_2x2 \<and> 0 \<le> x \<and> x < width im_2x2 \<Longrightarrow>
               buf out ! nat (y * stride out + x) = buf im_2x2 ! nat (y * stride im_2x2 + x)"
    unfolding r by auto
  have "buf out ! 0 = 10" using px [of 0 0] by (simp add: o im_2x2_def)
  moreover have "buf out ! 1 = 21" using px [of 0 1] by (simp add: o im_2x2_def)
  moreover have "buf out ! 96 = 255" using px [of 1 0] by (simp add: o im_2x2_def)
  moreover have "buf out ! 97 = 0" using px [of 1 1] by (simp add: o im_2x2_def)
  ultimately show ?thesis using v b o by (simp add: im_2x2_def)
qed

lemma rotate_pixel_returns:
  assumes v: "valid_image im" and S: "ow \<le> stride out" and lb: "int (length b) = stride out * oh"
    and x: "0 \<le> ox" "ox < ow" and y: "0 \<le> oy" "oy < oh"
  shows "\<exists>b'. rotate_pixel im out c s pad ow oh oy ox b = Inr b' \<and> length b' = length b"
proof -
  have len: "int (length (buf im)) = stride im * height im" and ws: "width im \<le> stride im"
    using v by (simp_all add: valid_image_def)
  have dst: "0 \<le> oy * stride out + ox" "oy * stride out + ox < int (length b)"
    using idx_in_range [of ox "stride out" oy oh] x y S lb by (simp_all add: mult.commute)
  have src: "0 \<le> iy * stride im + ix \<and> iy * stride im + ix < int (length (buf im))"
    if "ix \<ge> 0 \<and> iy \<ge> 0 \<and> ix < width im \<and> iy < height im" for ix iy
    using idx_in_range [of ix "stride im" iy "height im"] that ws len by (simp add: mult.commute)
  show ?thesis
    unfolding rotate_pixel_def Let_def using dst src by (auto simp del: One_nat_def)
qed

lemma rotate_returns:
  assumes v: "valid_image im" and sz: "rotate_size im (binary32 (cos (- rad))) (binary32 (sin (- rad))) = (ow, oh)"
    and cr: "image_u8_create (word_of_int ow) (word_of_int oh) = Inr out"
    and o: "0 \<le> ow" "0 \<le> oh" "ow \<le> stride out" "int (length (buf out)) = stride out * oh"
  shows "\<exists>b. image_u8_rotate im rad pad = Inr (out\<lparr>buf := b\<rparr>)"
proof -
  let ?c = "binary32 (cos (- rad))" and ?s = "binary32 (sin (- rad))"
  let ?P = "\<lambda>(j :: int) t :: uint8 list. length t = length (buf out)"
  have "\<exists>b. for_loop 0 oh (\<lambda>oy. for_loop 0 ow (rotate_pixel im out ?c ?s pad ow oh oy)) (buf out) = Inr b \<and>
            ?P oh b"
  proof (rule for_loop_rule [where I = ?P])
    show "?P 0 (buf out)" by simp
    show "0 \<le> oh" by fact
    fix y t assume y: "0 \<le> y" "y < oh" and t: "?P y t"
    have "\<exists>t'. for_loop 0 ow (rotate_pixel im out ?c ?s pad ow oh y) t = Inr t' \<and> ?P ow t'"
    proof (rule for_loop_rule [where I = ?P])
      show "?P 0 t" using t by simp
      show "0 \<le> ow" by fact
      fix x u assume x: "0 \<le> x" "x < ow" and u: "?P x u"
      have "int (length u) = stride out * oh" using u o(4) by simp
      from rotate_pixel_returns [OF v o(3) this x y, of ?c ?s pad]
      show "\<exists>t'. rotate_pixel im out ?c ?s pad ow oh y x u = Inr t' \<and> ?P (x + 1) t'"
        using u by auto
    qed
    then show "\<exists>t'. for_loop 0 ow (rotate_pixel im out ?c ?s pad ow oh y) t = Inr t' \<and> ?P (y + 1) t'"
      by simp
  qed
  then obtain b where "for_loop 0 oh (\<lambda>oy. for_loop 0 ow (rotate_pixel im out ?c ?s pad ow oh oy)) (buf out) = Inr b"
    by blast
  then have "image_u8_rotate im rad pad = Inr (out\<lparr>buf := b\<rparr>)"
    using sz cr by (simp add: image_u8_rotate_def Let_def)
  then show ?thesis by blast
qed

lemma rotate_size_wide: "rotate_size im_wide 1 0 = (16777216, 1)"
proof -
  have b: "binary32 1 = 1" "binary32 8388608 = 8388608" "binary32 (- 8388608) = - 8388608"
    "binary32 (1 / 2) = 1 / 2" "binary32 (- (1 / 2)) = - (1 / 2)"
    using binary32_int [of 1] binary32_int [of 8388608] binary32_int [of "- 8388608"]
      binary32_half [of 1] binary32_half [of "- 1"] by simp_all
  show ?thesis
    by (simp add: rotate_size_def rotate_corner_def im_wide_def uniform_image_def Let_def
        binary32_tie_wide binary32_tie_half binary32_2p24 b)
qed

text \<open>
  Claim C9 as stated, for every Buffer, fails where \<open>float\<close> no longer holds the width:
  \<open>(float) 16777217\<close> is \<open>16777216\<close> and \<open>16777217 / 2.0\<close> is stored as \<open>8388608\<close>, so that a
  Buffer of \<open>2\<^sup>2\<^sup>4 + 1\<close> columns is rotated by the angle 0 into one of \<open>2\<^sup>2\<^sup>4\<close> columns.
\<close>

theorem rotate_zero_wide_counterexample:
  "width im_wide = 16777217 \<and>
   map_sum id width (image_u8_rotate im_wide 0 0) = Inr 16777216"
proof -
  have v: "valid_image im_wide" by (simp add: valid_image_def im_wide_def uniform_image_def)
  have c: "binary32 (cos (- 0)) = 1" "binary32 (sin (- 0)) = 0"
    and c1: "binary32 1 = 1"
    using binary32_int [of 1] by simp_all
  let ?out = "\<lparr> width = 16777216, height = 1, stride = 16777248, buf = replicate 16777248 (0 :: uint8) \<rparr>"
  have ru: "round_up 16777216 96 = 16777248" by (simp add: round_up_def)
  have cr: "image_u8_create (word_of_int 16777216) (word_of_int 1) = Inr ?out"
    using create_alignment_fits [of 96 16777216 1]
    by (simp add: image_u8_create_def DEFAULT_ALIGNMENT_U8_def ru)
  have "\<exists>b. image_u8_rotate im_wide 0 0 = Inr (?out\<lparr>buf := b\<rparr>)"
    by (rule rotate_returns [OF v _ cr]) (simp_all add: c1 rotate_size_wide)
  then show ?thesis by (auto simp: im_wide_def uniform_image_def)
qed

end
